theory Spec2Isabelle
  imports Main
begin

section \<open>JavaScript values, as DataTransformer.js sees them\<close>

text \<open>
  The transformer works on plain JSON-like data.  A value is a primitive, an array or a
  plain object.  Numbers are the integers (every number the properties below speak of is
  one); an object is the list of its own enumerable properties in the order in which
  \<^verbatim>\<open>for (key in obj)\<close> visits them, with pairwise different keys.  A value is a
  finite tree: a record that contains itself, on which the flattening of the source does
  not come back, is not among them (the store of the later sections has such records).
\<close>

datatype jsval =
    JUndefined
  | JNull
  | JBool bool
  | JNum int
  | JStr string
  | JArr "jsval list"
  | JObj "(string \<times> jsval) list"

datatype error = UnsupportedFormat | TypeError

text \<open>\<^verbatim>\<open>typeof v\<close>, \<^verbatim>\<open>Array.isArray(v)\<close> and the truthiness of \<^verbatim>\<open>v\<close>.\<close>

fun typeof :: "jsval \<Rightarrow> string" where
  "typeof JUndefined = ''undefined''"
| "typeof JNull = ''object''"
| "typeof (JBool b) = ''boolean''"
| "typeof (JNum n) = ''number''"
| "typeof (JStr s) = ''string''"
| "typeof (JArr xs) = ''object''"
| "typeof (JObj ps) = ''object''"

fun isArray :: "jsval \<Rightarrow> bool" where
  "isArray (JArr xs) = True"
| "isArray v = False"

fun truthy :: "jsval \<Rightarrow> bool" where
  "truthy JUndefined = False"
| "truthy JNull = False"
| "truthy (JBool b) = b"
| "truthy (JNum n) = (n \<noteq> 0)"
| "truthy (JStr s) = (s \<noteq> [])"
| "truthy (JArr xs) = True"
| "truthy (JObj ps) = True"

text \<open>
  Decimal numerals: the property keys of an array are its indices written out, and a
  number used as a property key is written the same way, with its sign.  That is the
  string of every integer of magnitude below \<open>10^21\<close>, so of every integer that a
  spreadsheet cell holds exactly; the exponent form of larger numbers is not modelled.
\<close>

definition digit_char :: "nat \<Rightarrow> char" where
  "digit_char d = ''0123456789'' ! d"

fun index_key :: "nat \<Rightarrow> string" where
  "index_key n = (if 10 \<le> n then index_key (n div 10) @ [digit_char (n mod 10)] else [digit_char n])"

declare index_key.simps [simp del]

definition number_key :: "int \<Rightarrow> string" where
  "number_key i = (if 0 \<le> i then index_key (nat i) else CHR ''-'' # index_key (nat (- i)))"

text \<open>
  \<^verbatim>\<open>obj[key]\<close> on a plain object: the property's value, \<^verbatim>\<open>undefined\<close> when
  the object has no such property.
\<close>

definition get_property :: "(string \<times> jsval) list \<Rightarrow> string \<Rightarrow> jsval" where
  "get_property ps key = (case map_of ps key of None \<Rightarrow> JUndefined | Some v \<Rightarrow> v)"

text \<open>
  \<^verbatim>\<open>v.length\<close> for a value that is neither \<^verbatim>\<open>null\<close> nor
  \<^verbatim>\<open>undefined\<close> (on those the read throws, which every caller below rules out or
  turns into an error first).
\<close>

fun get_length :: "jsval \<Rightarrow> jsval" where
  "get_length (JArr xs) = JNum (int (length xs))"
| "get_length (JStr s) = JNum (int (length s))"
| "get_length (JObj ps) = get_property ps ''length''"
| "get_length v = JUndefined"

text \<open>
  The pairs \<^verbatim>\<open>(key, current[key])\<close> that \<^verbatim>\<open>for (const key in current)\<close>
  visits: the properties of an object, the indices of an array or of a string, nothing
  for any other value (also for \<^verbatim>\<open>null\<close> and \<^verbatim>\<open>undefined\<close>).
\<close>

fun for_in :: "jsval \<Rightarrow> (string \<times> jsval) list" where
  "for_in (JObj ps) = ps"
| "for_in (JArr xs) = zip (map index_key [0..<length xs]) xs"
| "for_in (JStr s) = zip (map index_key [0..<length s]) (map (\<lambda>c. JStr [c]) s)"
| "for_in v = []"

section \<open>extractObjectValues\<close>

record extracted =
  keys :: "string list"
  vals :: "jsval list"

text \<open>
  The closure \<^verbatim>\<open>extract(current, prefix)\<close> pushes onto the two arrays
  \<^verbatim>\<open>keys\<close> and \<^verbatim>\<open>values\<close> of the enclosing call; here they are threaded
  through as the accumulator (\<open>extract_closure\<close> is the closure \<^verbatim>\<open>extract\<close>).
  \<open>extract_loop\<close> is the \<^verbatim>\<open>for ... in\<close> loop over the
  entries still to visit.
\<close>

function extract_loop :: "(string \<times> jsval) list \<Rightarrow> string \<Rightarrow> extracted \<Rightarrow> extracted" where
  "extract_loop [] prefix acc = acc"
| "extract_loop ((key, v) # rest) prefix acc =
     (let fullKey = (if prefix \<noteq> [] then prefix @ ''.'' @ key else key) in
      if typeof v = ''object'' \<and> truthy v \<and> get_length v = JUndefined
      then extract_loop rest prefix (extract_loop (for_in v) fullKey acc)
      else extract_loop rest prefix
             (acc\<lparr>keys := keys acc @ [fullKey], vals := vals acc @ [v]\<rparr>))"
  by pat_completeness auto

termination
proof (relation "measure (\<lambda>(es, prefix, acc). size_list (size_prod (\<lambda>_. 0) size) es)")
  show "wf (measure (\<lambda>(es, prefix, acc). size_list (size_prod (\<lambda>_. 0) size) es))"
    by simp
next
  fix key :: string and v :: jsval and rest prefix and acc :: extracted and fullKey :: string
  assume "typeof v = ''object'' \<and> truthy v \<and> get_length v = JUndefined"
  then show "((for_in v, fullKey, acc), (key, v) # rest, prefix, acc)
      \<in> measure (\<lambda>(es, prefix, acc). size_list (size_prod (\<lambda>_. 0) size) es)"
    by (cases v) auto
qed auto

definition extract_closure :: "jsval \<Rightarrow> string \<Rightarrow> extracted \<Rightarrow> extracted" where
  "extract_closure current prefix acc = extract_loop (for_in current) prefix acc"

definition extractObjectValues :: "jsval \<Rightarrow> extracted" where
  "extractObjectValues obj = extract_closure obj [] \<lparr>keys = [], vals = []\<rparr>"

section \<open>The write encoder: transform\<close>

text \<open>
  The \<^verbatim>\<open>config\<close> object.  \<^verbatim>\<open>line\<close> and \<^verbatim>\<open>column\<close> are only ever tested
  for truthiness; \<^verbatim>\<open>fields\<close>, \<^verbatim>\<open>method\<close> and \<^verbatim>\<open>direction\<close> are compared
  with string literals by \<^verbatim>\<open>===\<close>; \<^verbatim>\<open>selfields\<close> is an array of field names, or
  is not there.  The property \<^verbatim>\<open>config.fields\<close> is \<open>cfg_fields\<close> here, and
  \<^verbatim>\<open>config.method\<close> is \<open>cfg_method\<close>.
\<close>

record config =
  cfg_fields :: jsval
  selfields :: "string list option"
  cfg_method :: jsval
  line :: bool
  column :: bool
  direction :: jsval

text \<open>\<^verbatim>\<open>xs[i]\<close> on an array: \<^verbatim>\<open>undefined\<close> past the end.\<close>

definition array_get :: "jsval list \<Rightarrow> nat \<Rightarrow> jsval" where
  "array_get xs i = (if i < length xs then xs ! i else JUndefined)"

text \<open>\<^verbatim>\<open>xs.indexOf(x)\<close>: the first index that holds \<open>x\<close>, or \<open>-1\<close>.\<close>

fun indexOf :: "'a list \<Rightarrow> 'a \<Rightarrow> int" where
  "indexOf [] x = - 1"
| "indexOf (y # ys) x =
     (if y = x then 0 else (let i = indexOf ys x in if i = - 1 then - 1 else i + 1))"

text \<open>
  \<^verbatim>\<open>(config.selfields && config.selfields[0]) ? Array.from(config.selfields) : undefined\<close>
\<close>

definition selected :: "config \<Rightarrow> string list option" where
  "selected config =
     (case selfields config of
        Some (f # fs) \<Rightarrow> if f \<noteq> [] then Some (f # fs) else None
      | _ \<Rightarrow> None)"

text \<open>
  The inner loop \<^verbatim>\<open>for (const field of fields)\<close> of both record encoders, which
  pushes the value of every requested field that the extraction has.
\<close>

fun select_loop :: "string list \<Rightarrow> extracted \<Rightarrow> jsval list \<Rightarrow> jsval list" where
  "select_loop [] ex row = row"
| "select_loop (field # fs) ex row =
     (let i = indexOf (keys ex) field in
      select_loop fs ex (if i > - 1 then row @ [array_get (vals ex) (nat i)] else row))"

definition transformArrayOfObjects ::
    "jsval list \<Rightarrow> config \<Rightarrow> string list option \<Rightarrow> jsval list list" where
  "transformArrayOfObjects rows config fields' =
     (if cfg_fields config = JStr ''all'' then
        (let values = map (\<lambda>obj. vals (extractObjectValues obj)) rows in
         if cfg_method config = JStr ''new'' \<and> line config
         then map JStr (keys (extractObjectValues (array_get rows 0))) # values
         else values)
      else
        (case fields' of
           Some fs \<Rightarrow>
             (let values = map (\<lambda>obj. select_loop fs (extractObjectValues obj) []) rows in
              if cfg_method config = JStr ''new'' \<and> line config
              then map JStr fs # values
              else values)
         | None \<Rightarrow> []))"

text \<open>
  \<^verbatim>\<open>values[i].unshift(x)\<close>: a \<^verbatim>\<open>TypeError\<close> when \<^verbatim>\<open>values\<close> has no row
  \<open>i\<close>.
\<close>

definition unshift_row :: "nat \<Rightarrow> jsval \<Rightarrow> jsval list list \<Rightarrow> error + jsval list list" where
  "unshift_row i x values =
     (if i < length values then Inr (values[i := x # values ! i]) else Inl TypeError)"

text \<open>
  The loop \<^verbatim>\<open>for (let i = 0; i < labels.length; i++) values[i + off].unshift(labels[i])\<close>,
  entered at row \<open>r = i + off\<close> with the labels still to place.
\<close>

fun label_rows :: "nat \<Rightarrow> string list \<Rightarrow> jsval list list \<Rightarrow> error + jsval list list" where
  "label_rows r [] values = Inr values"
| "label_rows r (l # ls) values =
     (case unshift_row r (JStr l) values of
        Inl e \<Rightarrow> Inl e
      | Inr values' \<Rightarrow> label_rows (Suc r) ls values')"

definition addColumnLabels ::
    "jsval list list \<Rightarrow> string list \<Rightarrow> bool \<Rightarrow> error + jsval list list" where
  "addColumnLabels values labels hasLineHeaders =
     (if hasLineHeaders then
        (case unshift_row 0 (JStr ''Elements'') values of
           Inl e \<Rightarrow> Inl e
         | Inr values' \<Rightarrow> label_rows 1 labels values')
      else label_rows 0 labels values)"

text \<open>
  \<open>data\<close> is the property list of the object; \<^verbatim>\<open>data[labels[0]]\<close> reads the property
  \<^verbatim>\<open>"undefined"\<close> when there is no label.
\<close>

definition transformObjectOfObjects ::
    "(string \<times> jsval) list \<Rightarrow> config \<Rightarrow> string list option \<Rightarrow> error + jsval list list" where
  "transformObjectOfObjects data config fields' =
     (let labels = map fst data in
      if cfg_fields config = JStr ''all'' then
        (let values = map (\<lambda>(key, v). vals (extractObjectValues v)) data in
         if cfg_method config = JStr ''new'' then
           (let firstExtracted =
                  extractObjectValues
                    (get_property data (case labels of [] \<Rightarrow> ''undefined'' | l # _ \<Rightarrow> l));
                values = (if line config then map JStr (keys firstExtracted) # values else values)
            in if column config then addColumnLabels values labels (line config)
               else Inr values)
         else Inr values)
      else
        (case fields' of
           Some fs \<Rightarrow>
             (let values = map (\<lambda>(key, v). select_loop fs (extractObjectValues v) []) data in
              if cfg_method config = JStr ''new'' then
                (let values = (if line config then map JStr fs # values else values)
                 in if column config then addColumnLabels values labels (line config)
                    else Inr values)
              else Inr values)
         | None \<Rightarrow> Inr []))"

fun elements :: "jsval \<Rightarrow> jsval list" where
  "elements (JArr xs) = xs"
| "elements v = []"

definition grid_value :: "jsval list list \<Rightarrow> jsval" where
  "grid_value rows = JArr (map JArr rows)"

text \<open>
  The dispatch of \<^verbatim>\<open>transform\<close>, test by test in the source's order.  The last test
  reads \<^verbatim>\<open>data.length\<close>, which throws a \<^verbatim>\<open>TypeError\<close> on \<^verbatim>\<open>null\<close>.
\<close>

definition transform :: "jsval \<Rightarrow> config \<Rightarrow> error + jsval" where
  "transform data config =
     (let fields' = selected config in
      if data \<noteq> JNull \<and> data \<noteq> JUndefined \<and> typeof data \<noteq> ''object''
      then Inr (JArr [JArr [data]])
      else if isArray data \<and> 0 < length (elements data) \<and> isArray (array_get (elements data) 0)
      then Inr data
      else if isArray data \<and> length (elements data) = 1
              \<and> typeof (array_get (elements data) 0) \<noteq> ''object''
      then Inr (JArr [JArr [array_get (elements data) 0]])
      else if isArray data \<and> 0 < length (elements data)
      then Inr (grid_value (transformArrayOfObjects (elements data) config fields'))
      else if typeof data = ''object''
      then (if data = JNull then Inl TypeError
            else if get_length data = JUndefined
            then (case transformObjectOfObjects (for_in data) config fields' of
                    Inl e \<Rightarrow> Inl e
                  | Inr values \<Rightarrow> Inr (grid_value values))
            else Inl UnsupportedFormat)
      else Inl UnsupportedFormat)"

section \<open>The read decoder: transformGetResponse\<close>

text \<open>
  The response of the service is an \<^verbatim>\<open>Array<Array>\<close>: a list of rows, each a list of
  cells.  On values, where an array has no identity, \<^verbatim>\<open>copyValuesArray\<close> gives back what
  it was given; the store-level model further down is where the copy matters.
\<close>

definition copyValuesArray :: "jsval list list \<Rightarrow> jsval list list" where
  "copyValuesArray values = map (\<lambda>row. row) values"

text \<open>
  A property key is the string of the value in the brackets (\<^verbatim>\<open>ToString\<close>); an array
  joins the strings of its elements with commas, \<^verbatim>\<open>null\<close> and \<^verbatim>\<open>undefined\<close>
  elements giving the empty string.
\<close>

fun join :: "string list \<Rightarrow> string" where
  "join [] = []"
| "join [s] = s"
| "join (s # t # ss) = s @ '','' @ join (t # ss)"

fun to_string :: "jsval \<Rightarrow> string" where
  "to_string JUndefined = ''undefined''"
| "to_string JNull = ''null''"
| "to_string (JBool b) = (if b then ''true'' else ''false'')"
| "to_string (JNum n) = number_key n"
| "to_string (JStr s) = s"
| "to_string (JArr xs) =
     join (map (\<lambda>x. if x = JNull \<or> x = JUndefined then [] else to_string x) xs)"
| "to_string (JObj ps) = ''[object Object]''"

text \<open>
  \<^verbatim>\<open>obj[key] = v\<close> on a plain object.  An existing property keeps its place.  A new one
  goes last, unless its key is an array index (a canonical numeral below \<open>2^32 - 1\<close>): those
  are enumerated first, in ascending order.  Assigning to \<^verbatim>\<open>__proto__\<close> adds no property
  of the object's own: it goes to the setter that the object inherits, which changes the
  prototype (for an object or \<^verbatim>\<open>null\<close>) or does nothing; prototypes are outside this
  model.
\<close>

definition is_digit :: "char \<Rightarrow> bool" where
  "is_digit c = (c \<in> set ''0123456789'')"

definition int_of_string :: "string \<Rightarrow> int" where
  "int_of_string s = foldl (\<lambda>n c. 10 * n + indexOf ''0123456789'' c) 0 s"

definition is_array_index :: "string \<Rightarrow> bool" where
  "is_array_index s =
     (s \<noteq> [] \<and> list_all is_digit s \<and> (s = ''0'' \<or> hd s \<noteq> CHR ''0'')
      \<and> int_of_string s < 4294967295)"

fun insert_index :: "string \<Rightarrow> 'v \<Rightarrow> (string \<times> 'v) list \<Rightarrow> (string \<times> 'v) list" where
  "insert_index key v [] = [(key, v)]"
| "insert_index key v ((k, w) # ps) =
     (if is_array_index k \<and> int_of_string k < int_of_string key
      then (k, w) # insert_index key v ps
      else (key, v) # (k, w) # ps)"

definition set_property :: "(string \<times> 'v) list \<Rightarrow> string \<Rightarrow> 'v \<Rightarrow> (string \<times> 'v) list" where
  "set_property ps key v =
     (if key \<in> fst ` set ps then map (\<lambda>(k, w). if k = key then (k, v) else (k, w)) ps
      else if key = ''__proto__'' then ps
      else if is_array_index key then insert_index key v ps
      else ps @ [(key, v)])"

text \<open>
  A name that, assigned to, becomes a new last property: neither an array index nor
  \<^verbatim>\<open>__proto__\<close>.
\<close>

definition plain_name :: "string \<Rightarrow> bool" where
  "plain_name s = (\<not> is_array_index s \<and> s \<noteq> ''__proto__'')"

text \<open>
  The loop \<^verbatim>\<open>for (let i = 0; i < obj.length; i++) newl[line_labels[i]] = obj[i]\<close> of
  both record-building decoders.
\<close>

definition fill_record :: "jsval list \<Rightarrow> jsval list \<Rightarrow> (string \<times> jsval) list" where
  "fill_record line_labels obj =
     fold (\<lambda>i newl. set_property newl (to_string (array_get line_labels i)) (array_get obj i))
       [0..<length obj] []"

text \<open>
  \<^verbatim>\<open>xs.shift()\<close> gives the first element, \<^verbatim>\<open>undefined\<close> for the empty array, and
  leaves the rest in \<open>xs\<close>.
\<close>

definition shift :: "'a list \<Rightarrow> 'a option \<times> 'a list" where
  "shift xs = (case xs of [] \<Rightarrow> (None, []) | x # xs' \<Rightarrow> (Some x, xs'))"

definition shift_cell :: "jsval list \<Rightarrow> jsval \<times> jsval list" where
  "shift_cell xs = (case shift xs of (None, r) \<Rightarrow> (JUndefined, r) | (Some x, r) \<Rightarrow> (x, r))"

text \<open>
  \<^verbatim>\<open>_transformWithBothHeaders\<close>: on the empty response \<^verbatim>\<open>response.shift()\<close> is
  \<^verbatim>\<open>undefined\<close> and \<^verbatim>\<open>line_labels.shift()\<close> throws.
\<close>

definition transformWithBothHeaders :: "jsval list list \<Rightarrow> error + jsval" where
  "transformWithBothHeaders response =
     (case shift response of
        (None, _) \<Rightarrow> Inl TypeError
      | (Some line_labels0, response') \<Rightarrow>
          (let line_labels = snd (shift_cell line_labels0) in
           Inr (JObj
             (fold (\<lambda>obj0 objet.
                      (let (item, obj) = shift_cell obj0;
                           newl = fill_record line_labels obj
                       in set_property objet (to_string item) (JObj newl)))
                response' []))))"

definition transformWithSingleHeader :: "jsval list list \<Rightarrow> jsval" where
  "transformWithSingleHeader response =
     JObj (fold (\<lambda>obj0 objet.
                   (let (label, obj) = shift_cell obj0
                    in set_property objet (to_string label) (JArr obj)))
             response [])"

text \<open>
  \<^verbatim>\<open>_transformToObjectArray\<close>: on the empty response \<^verbatim>\<open>line_labels\<close> is
  \<^verbatim>\<open>undefined\<close>, which is never read because there is no row left to loop over.
\<close>

definition transformToObjectArray :: "jsval list list \<Rightarrow> jsval" where
  "transformToObjectArray response =
     (case shift response of
        (None, _) \<Rightarrow> JArr []
      | (Some line_labels, response') \<Rightarrow>
          JArr (map (\<lambda>obj. JObj (fill_record line_labels obj)) response'))"

definition transformGetResponse :: "jsval list list \<Rightarrow> config \<Rightarrow> jsval \<Rightarrow> error + jsval" where
  "transformGetResponse values config majorDimension =
     (let response = copyValuesArray values in
      if \<not> line config \<and> \<not> column config then
        (if length response = 1 \<and> length (response ! 0) = 1
         then Inr (response ! 0 ! 0)
         else Inr (grid_value response))
      else if line config \<and> column config then transformWithBothHeaders response
      else if (column config
                 \<and> (majorDimension = JStr ''COLUMNS'' \<or> direction config = JStr ''column''))
              \<or> (line config
                 \<and> (majorDimension = JStr ''ROWS'' \<or> direction config = JStr ''line''))
      then Inr (transformWithSingleHeader response)
      else Inr (transformToObjectArray response))"

section \<open>The point lookup: transformCellResponse\<close>

text \<open>
  The scan \<^verbatim>\<open>for (let i = 1; i < values.length; i++)\<close> over the rows after the header
  row, with its early return.
\<close>

fun scan_rows :: "jsval list list \<Rightarrow> string \<Rightarrow> nat \<Rightarrow> jsval" where
  "scan_rows [] cell_l colIndex = JStr ''Not found''"
| "scan_rows (row # rows) cell_l colIndex =
     (if array_get row 0 = JStr cell_l then
        (let cellValue = array_get row colIndex in
         if cellValue \<noteq> JUndefined \<and> cellValue \<noteq> JStr '''' then cellValue
         else JStr ''Not found'')
      else scan_rows rows cell_l colIndex)"

text \<open>
  \<open>None\<close> is a falsy \<^verbatim>\<open>values\<close> (\<^verbatim>\<open>undefined\<close> or \<^verbatim>\<open>null\<close>).  The labels
  are strings, so \<^verbatim>\<open>===\<close> and \<^verbatim>\<open>indexOf\<close> compare a cell with a string.
\<close>

definition transformCellResponse :: "jsval list list option \<Rightarrow> string \<Rightarrow> string \<Rightarrow> jsval" where
  "transformCellResponse values cell_l cell_c =
     (case values of
        None \<Rightarrow> JStr ''Not found''
      | Some [] \<Rightarrow> JStr ''Not found''
      | Some (headerRow # rest) \<Rightarrow>
          (let colIndex = indexOf headerRow (JStr cell_c) in
           if colIndex = - 1 then JStr ''Not found''
           else scan_rows rest cell_l (nat colIndex)))"

section \<open>Example data\<close>

text \<open>The records, the grid and the configuration of the repository's own examples.\<close>

definition people_records :: jsval where
  "people_records =
     JArr [JObj [(''name'', JStr ''John''), (''age'', JNum 30)],
           JObj [(''name'', JStr ''Jane''), (''age'', JNum 25)]]"

definition people_grid :: "jsval list list" where
  "people_grid =
     [[JStr ''name'', JStr ''age''], [JStr ''John'', JNum 30], [JStr ''Jane'', JNum 25]]"

definition people_by_label :: jsval where
  "people_by_label =
     JObj [(''name'', JArr [JStr ''age'']), (''John'', JArr [JNum 30]),
           (''Jane'', JArr [JNum 25])]"

definition line_header_config :: config where
  "line_header_config =
     \<lparr>cfg_fields = JStr ''all'', selfields = None, cfg_method = JStr ''new'',
      line = True, column = False, direction = JUndefined\<rparr>"

definition lookup_grid :: "jsval list list" where
  "lookup_grid = [[JStr '''', JStr ''col1'', JStr ''col2''],
                  [JStr ''row1'', JStr ''A'', JStr ''B''],
                  [JStr ''row2'', JStr ''C''],
                  [JStr ''row3'', JStr '''', JStr ''Not found'']]"

section \<open>The store: arrays and objects with identity\<close>

text \<open>
  Whether the encoder hands back the caller's own arrays, and whether the decoder writes
  into them, cannot be read off values.  For these questions arrays and objects live in
  a store: a reference \<open>HRef a\<close> names the object at address \<open>a\<close>, two references to
  one address are one object, \<^verbatim>\<open>[]\<close>, \<^verbatim>\<open>{}\<close> and \<^verbatim>\<open>Array.from\<close> allocate at the
  next free address, and \<^verbatim>\<open>push\<close>, \<^verbatim>\<open>shift\<close>, \<^verbatim>\<open>unshift\<close> and
  \<^verbatim>\<open>obj[key] = v\<close> overwrite the object at the address they are applied to.
  Equality of \<open>hval\<close> is \<^verbatim>\<open>===\<close>: by value on primitives, by address on references.
\<close>

datatype hval =
    HUndefined
  | HNull
  | HBool bool
  | HNum int
  | HStr string
  | HRef nat

datatype hobj = HArr "hval list" | HObj "(string \<times> hval) list"

type_synonym heap = "hobj list"

text \<open>
  A piece of code takes the store and either returns (a value or a thrown error, and the
  store it leaves) or does not return at all: \<open>None\<close>, which only the walk over a
  record of unbounded depth can produce, when its fuel runs out.
\<close>

type_synonym 'a prog = "heap \<Rightarrow> ((error + 'a) \<times> heap) option"

definition ret :: "'a \<Rightarrow> 'a prog" where
  "ret x h = Some (Inr x, h)"

definition throw :: "error \<Rightarrow> 'a prog" where
  "throw e h = Some (Inl e, h)"

definition andThen :: "'a prog \<Rightarrow> ('a \<Rightarrow> 'b prog) \<Rightarrow> 'b prog" where
  "andThen m f h =
     (case m h of
        None \<Rightarrow> None
      | Some (Inl e, h') \<Rightarrow> Some (Inl e, h')
      | Some (Inr x, h') \<Rightarrow> f x h')"

text \<open>A loop over a list of values fixed when the loop starts; a throw leaves the loop.\<close>

fun for_of :: "'a list \<Rightarrow> ('a \<Rightarrow> unit prog) \<Rightarrow> unit prog" where
  "for_of [] body = ret ()"
| "for_of (x # xs) body = andThen (body x) (\<lambda>_. for_of xs body)"

definition new_array :: "hval list \<Rightarrow> hval prog" where
  "new_array xs h = Some (Inr (HRef (length h)), h @ [HArr xs])"

definition new_object :: "(string \<times> hval) list \<Rightarrow> hval prog" where
  "new_object ps h = Some (Inr (HRef (length h)), h @ [HObj ps])"

definition read_array :: "heap \<Rightarrow> hval \<Rightarrow> hval list option" where
  "read_array h v =
     (case v of
        HRef a \<Rightarrow>
          (if a < length h then (case h ! a of HArr xs \<Rightarrow> Some xs | HObj ps \<Rightarrow> None)
           else None)
      | _ \<Rightarrow> None)"

definition read_object :: "heap \<Rightarrow> hval \<Rightarrow> (string \<times> hval) list option" where
  "read_object h v =
     (case v of
        HRef a \<Rightarrow>
          (if a < length h then (case h ! a of HObj ps \<Rightarrow> Some ps | HArr xs \<Rightarrow> None)
           else None)
      | _ \<Rightarrow> None)"

definition write_ref :: "hval \<Rightarrow> hobj \<Rightarrow> heap \<Rightarrow> heap" where
  "write_ref v ob h = (case v of HRef a \<Rightarrow> h[a := ob] | _ \<Rightarrow> h)"

text \<open>
  The array methods, called on any value: a value that is not an array has no such
  method, and the call throws a \<^verbatim>\<open>TypeError\<close>.
\<close>

definition arr_push :: "hval \<Rightarrow> hval \<Rightarrow> unit prog" where
  "arr_push arr x h =
     (case read_array h arr of
        Some xs \<Rightarrow> Some (Inr (), write_ref arr (HArr (xs @ [x])) h)
      | None \<Rightarrow> Some (Inl TypeError, h))"

definition arr_unshift :: "hval \<Rightarrow> hval \<Rightarrow> unit prog" where
  "arr_unshift arr x h =
     (case read_array h arr of
        Some xs \<Rightarrow> Some (Inr (), write_ref arr (HArr (x # xs)) h)
      | None \<Rightarrow> Some (Inl TypeError, h))"

definition arr_shift :: "hval \<Rightarrow> hval prog" where
  "arr_shift arr h =
     (case read_array h arr of
        Some [] \<Rightarrow> Some (Inr HUndefined, h)
      | Some (x # xs) \<Rightarrow> Some (Inr x, write_ref arr (HArr xs) h)
      | None \<Rightarrow> Some (Inl TypeError, h))"

text \<open>\<^verbatim>\<open>obj[key] = x\<close> on one of the objects the decoder builds.\<close>

definition obj_set :: "hval \<Rightarrow> string \<Rightarrow> hval \<Rightarrow> unit prog" where
  "obj_set obj key x h =
     (case read_object h obj of
        Some ps \<Rightarrow> Some (Inr (), write_ref obj (HObj (set_property ps key x)) h)
      | None \<Rightarrow> Some (Inl TypeError, h))"

text \<open>\<^verbatim>\<open>xs[i]\<close> on the elements of an array.\<close>

definition cell_at :: "hval list \<Rightarrow> nat \<Rightarrow> hval" where
  "cell_at xs i = (if i < length xs then xs ! i else HUndefined)"

text \<open>
  The values \<^verbatim>\<open>for (const x of v)\<close> visits: the elements of an array, the characters
  of a string; any other value is not iterable.
\<close>

definition iterate :: "heap \<Rightarrow> hval \<Rightarrow> hval list option" where
  "iterate h v =
     (case v of HStr s \<Rightarrow> Some (map (\<lambda>c. HStr [c]) s) | _ \<Rightarrow> read_array h v)"

definition for_of_value :: "hval \<Rightarrow> (hval \<Rightarrow> unit prog) \<Rightarrow> unit prog" where
  "for_of_value v body h =
     (case iterate h v of
        None \<Rightarrow> throw TypeError h
      | Some xs \<Rightarrow> for_of xs body h)"

section \<open>The read decoder on the store\<close>

text \<open>
  \<^verbatim>\<open>copyValuesArray\<close>: a new outer array, a new array for every row that is an array,
  any other row as it is.
\<close>

definition copy_row :: "hval \<Rightarrow> hval \<Rightarrow> unit prog" where
  "copy_row result row h =
     (case read_array h row of
        Some xs \<Rightarrow> andThen (new_array xs) (\<lambda>copy. arr_push result copy) h
      | None \<Rightarrow> arr_push result row h)"

definition copyValuesArray_h :: "hval \<Rightarrow> hval prog" where
  "copyValuesArray_h values =
     andThen (new_array [])
       (\<lambda>result. andThen (for_of_value values (copy_row result)) (\<lambda>_. ret result))"

text \<open>
  The string of a cell used as a property key.  For a primitive it is as on values; for
  a reference it is whatever JavaScript makes of the object (its elements joined, or
  \<^verbatim>\<open>[object Object]\<close>), which the decoder takes as the parameter \<open>ref_key\<close>: a
  function of the store and the address that writes nothing.
\<close>

definition key_string :: "(heap \<Rightarrow> nat \<Rightarrow> string) \<Rightarrow> heap \<Rightarrow> hval \<Rightarrow> string" where
  "key_string ref_key h v =
     (case v of
        HUndefined \<Rightarrow> ''undefined''
      | HNull \<Rightarrow> ''null''
      | HBool b \<Rightarrow> (if b then ''true'' else ''false'')
      | HNum n \<Rightarrow> number_key n
      | HStr s \<Rightarrow> s
      | HRef a \<Rightarrow> ref_key h a)"

text \<open>
  The decoders are modelled on a grid, an array of arrays.  Where the source reads
  \<^verbatim>\<open>obj.length\<close>, \<^verbatim>\<open>obj[i]\<close> or \<^verbatim>\<open>line_labels[i]\<close> of a row, the model needs
  the row to be an array and stops with a \<^verbatim>\<open>TypeError\<close> otherwise (JavaScript does
  so for \<^verbatim>\<open>shift\<close>, and for these reads on \<^verbatim>\<open>null\<close> and \<^verbatim>\<open>undefined\<close>).

  \<open>fill_record_h\<close> is the loop
  \<^verbatim>\<open>for (let i = 0; i < obj.length; i++) newl[line_labels[i]] = obj[i]\<close>.
\<close>

definition fill_record_h ::
    "(heap \<Rightarrow> nat \<Rightarrow> string) \<Rightarrow> hval \<Rightarrow> hval \<Rightarrow> hval \<Rightarrow> unit prog" where
  "fill_record_h ref_key newl line_labels obj h =
     (case read_array h obj of
        None \<Rightarrow> throw TypeError h
      | Some cells \<Rightarrow>
          (if cells = [] then ret () h
           else (case read_array h line_labels of
                   None \<Rightarrow> throw TypeError h
                 | Some labels \<Rightarrow>
                     for_of [0..<length cells]
                       (\<lambda>i h'. obj_set newl (key_string ref_key h' (cell_at labels i))
                                  (cell_at cells i) h')
                       h)))"

definition transformWithBothHeaders_h :: "(heap \<Rightarrow> nat \<Rightarrow> string) \<Rightarrow> hval \<Rightarrow> hval prog" where
  "transformWithBothHeaders_h ref_key response =
     andThen (new_object []) (\<lambda>objet.
     andThen (arr_shift response) (\<lambda>line_labels.
     andThen (arr_shift line_labels) (\<lambda>_.
     andThen (for_of_value response (\<lambda>obj.
                andThen (new_object []) (\<lambda>newl.
                andThen (arr_shift obj) (\<lambda>item.
                andThen (fill_record_h ref_key newl line_labels obj) (\<lambda>_.
                (\<lambda>h. obj_set objet (key_string ref_key h item) newl h))))))
       (\<lambda>_. ret objet))))"

definition transformWithSingleHeader_h :: "(heap \<Rightarrow> nat \<Rightarrow> string) \<Rightarrow> hval \<Rightarrow> hval prog" where
  "transformWithSingleHeader_h ref_key response =
     andThen (new_object []) (\<lambda>objet.
     andThen (for_of_value response (\<lambda>obj.
                andThen (arr_shift obj) (\<lambda>label.
                (\<lambda>h. obj_set objet (key_string ref_key h label) obj h))))
       (\<lambda>_. ret objet))"

definition transformToObjectArray_h :: "(heap \<Rightarrow> nat \<Rightarrow> string) \<Rightarrow> hval \<Rightarrow> hval prog" where
  "transformToObjectArray_h ref_key response =
     andThen (new_array []) (\<lambda>array.
     andThen (arr_shift response) (\<lambda>line_labels.
     andThen (for_of_value response (\<lambda>obj.
                andThen (new_object []) (\<lambda>newl.
                andThen (fill_record_h ref_key newl line_labels obj) (\<lambda>_.
                arr_push array newl))))
       (\<lambda>_. ret array)))"

text \<open>
  The test \<^verbatim>\<open>response.length === 1 && response[0].length === 1\<close> and the read
  \<^verbatim>\<open>response[0][0]\<close> of the branch without headers, the one row being an array as
  said above.
\<close>

definition unwrap_single :: "hval \<Rightarrow> hval prog" where
  "unwrap_single response h =
     (case read_array h response of
        Some [row] \<Rightarrow>
          (case read_array h row of
             None \<Rightarrow> throw TypeError h
           | Some cells \<Rightarrow> if length cells = 1 then ret (cell_at cells 0) h else ret response h)
      | _ \<Rightarrow> ret response h)"

definition transformGetResponse_h ::
    "(heap \<Rightarrow> nat \<Rightarrow> string) \<Rightarrow> hval \<Rightarrow> config \<Rightarrow> jsval \<Rightarrow> hval prog" where
  "transformGetResponse_h ref_key values config majorDimension =
     andThen (copyValuesArray_h values) (\<lambda>response.
       if \<not> line config \<and> \<not> column config then unwrap_single response
       else if line config \<and> column config then transformWithBothHeaders_h ref_key response
       else if (column config
                  \<and> (majorDimension = JStr ''COLUMNS'' \<or> direction config = JStr ''column''))
               \<or> (line config
                  \<and> (majorDimension = JStr ''ROWS'' \<or> direction config = JStr ''line''))
       then transformWithSingleHeader_h ref_key response
       else transformToObjectArray_h ref_key response)"

text \<open>A grid in the store: a reference to an array whose elements refer to arrays.\<close>

definition is_grid :: "heap \<Rightarrow> hval \<Rightarrow> bool" where
  "is_grid h values =
     (case read_array h values of
        None \<Rightarrow> False
      | Some rows \<Rightarrow> list_all (\<lambda>row. read_array h row \<noteq> None) rows)"

section \<open>The write encoder on the store\<close>

fun typeof_h :: "hval \<Rightarrow> string" where
  "typeof_h HUndefined = ''undefined''"
| "typeof_h HNull = ''object''"
| "typeof_h (HBool b) = ''boolean''"
| "typeof_h (HNum n) = ''number''"
| "typeof_h (HStr s) = ''string''"
| "typeof_h (HRef a) = ''object''"

fun truthy_h :: "hval \<Rightarrow> bool" where
  "truthy_h HUndefined = False"
| "truthy_h HNull = False"
| "truthy_h (HBool b) = b"
| "truthy_h (HNum n) = (n \<noteq> 0)"
| "truthy_h (HStr s) = (s \<noteq> [])"
| "truthy_h (HRef a) = True"

definition get_property_h :: "(string \<times> hval) list \<Rightarrow> string \<Rightarrow> hval" where
  "get_property_h ps key = (case map_of ps key of None \<Rightarrow> HUndefined | Some v \<Rightarrow> v)"

text \<open>
  \<^verbatim>\<open>v.length\<close> for a value that is neither \<^verbatim>\<open>null\<close> nor \<^verbatim>\<open>undefined\<close>, and the
  pairs that \<^verbatim>\<open>for (const key in v)\<close> visits, both read from the store.
\<close>

definition get_length_h :: "heap \<Rightarrow> hval \<Rightarrow> hval" where
  "get_length_h h v =
     (case v of
        HStr s \<Rightarrow> HNum (int (length s))
      | HRef a \<Rightarrow>
          (if a < length h
           then (case h ! a of
                   HArr xs \<Rightarrow> HNum (int (length xs))
                 | HObj ps \<Rightarrow> get_property_h ps ''length'')
           else HUndefined)
      | _ \<Rightarrow> HUndefined)"

definition for_in_h :: "heap \<Rightarrow> hval \<Rightarrow> (string \<times> hval) list" where
  "for_in_h h v =
     (case v of
        HStr s \<Rightarrow> zip (map index_key [0..<length s]) (map (\<lambda>c. HStr [c]) s)
      | HRef a \<Rightarrow>
          (if a < length h
           then (case h ! a of
                   HArr xs \<Rightarrow> zip (map index_key [0..<length xs]) xs
                 | HObj ps \<Rightarrow> ps)
           else [])
      | _ \<Rightarrow> [])"

text \<open>
  The walk of \<^verbatim>\<open>extract\<close> over the entries of \<^verbatim>\<open>current\<close>, pushing onto the two
  arrays \<open>ks\<close> (\<^verbatim>\<open>keys\<close>) and \<open>vs\<close> (\<^verbatim>\<open>values\<close>) of the enclosing call.  Objects in
  the store can contain themselves, and then the source recurses for ever: each nested
  call uses up one unit of fuel, and the walk does not return when none is left.
\<close>

fun extract_loop_h ::
    "nat \<Rightarrow> (string \<times> hval) list \<Rightarrow> string \<Rightarrow> hval \<Rightarrow> hval \<Rightarrow> unit prog" where
  "extract_loop_h fuel [] prefix ks vs h = Some (Inr (), h)"
| "extract_loop_h fuel ((key, v) # rest) prefix ks vs h =
     (let fullKey = (if prefix \<noteq> [] then prefix @ ''.'' @ key else key) in
      if typeof_h v = ''object'' \<and> truthy_h v \<and> get_length_h h v = HUndefined
      then (case fuel of
              0 \<Rightarrow> None
            | Suc fuel' \<Rightarrow>
                (case extract_loop_h fuel' (for_in_h h v) fullKey ks vs h of
                   None \<Rightarrow> None
                 | Some (Inl e, h') \<Rightarrow> Some (Inl e, h')
                 | Some (Inr u, h') \<Rightarrow> extract_loop_h fuel rest prefix ks vs h'))
      else (case andThen (arr_push ks (HStr fullKey)) (\<lambda>_. arr_push vs v) h of
              None \<Rightarrow> None
            | Some (Inl e, h') \<Rightarrow> Some (Inl e, h')
            | Some (Inr u, h') \<Rightarrow> extract_loop_h fuel rest prefix ks vs h'))"

definition extractObjectValues_h :: "nat \<Rightarrow> hval \<Rightarrow> (hval \<times> hval) prog" where
  "extractObjectValues_h fuel obj =
     andThen (new_array []) (\<lambda>ks.
     andThen (new_array []) (\<lambda>vs.
     andThen (\<lambda>h. extract_loop_h fuel (for_in_h h obj) [] ks vs h) (\<lambda>_.
     ret (ks, vs))))"

text \<open>
  One round of \<^verbatim>\<open>for (const field of fields)\<close>: the position of the field among the
  extracted keys, and the push of the value at that position.
\<close>

definition select_field :: "hval \<times> hval \<Rightarrow> hval \<Rightarrow> hval \<Rightarrow> unit prog" where
  "select_field extracted row field h =
     (case (read_array h (fst extracted), read_array h (snd extracted)) of
        (Some ks, Some vs) \<Rightarrow>
          (let i = indexOf ks field in
           if i > - 1 then arr_push row (cell_at vs (nat i)) h else ret () h)
      | _ \<Rightarrow> throw TypeError h)"

text \<open>\<^verbatim>\<open>arr[i]\<close> read from the store, for a value that is an array.\<close>

definition index_h :: "heap \<Rightarrow> hval \<Rightarrow> nat \<Rightarrow> hval" where
  "index_h h arr i = (case read_array h arr of Some xs \<Rightarrow> cell_at xs i | None \<Rightarrow> HUndefined)"

definition transformArrayOfObjects_h :: "nat \<Rightarrow> hval \<Rightarrow> config \<Rightarrow> hval option \<Rightarrow> hval prog" where
  "transformArrayOfObjects_h fuel rows config fields' =
     andThen (new_array []) (\<lambda>values.
       if cfg_fields config = JStr ''all'' then
         andThen (for_of_value rows (\<lambda>obj.
                    andThen (extractObjectValues_h fuel obj) (\<lambda>extracted.
                    arr_push values (snd extracted))))
           (\<lambda>_. if cfg_method config = JStr ''new'' \<and> line config
                then andThen (\<lambda>h. extractObjectValues_h fuel (index_h h rows 0) h) (\<lambda>firstObj.
                     andThen (arr_unshift values (fst firstObj)) (\<lambda>_. ret values))
                else ret values)
       else
         (case fields' of
            Some fieldsArray \<Rightarrow>
              andThen (for_of_value rows (\<lambda>obj.
                         andThen (extractObjectValues_h fuel obj) (\<lambda>extracted.
                         andThen (new_array []) (\<lambda>row.
                         andThen (for_of_value fieldsArray (select_field extracted row)) (\<lambda>_.
                         arr_push values row)))))
                (\<lambda>_. if cfg_method config = JStr ''new'' \<and> line config
                     then andThen (arr_unshift values fieldsArray) (\<lambda>_. ret values)
                     else ret values)
          | None \<Rightarrow> ret values))"

text \<open>
  \<^verbatim>\<open>addColumnLabels\<close>: each \<^verbatim>\<open>values[r]\<close> is read from the store when its label is
  placed.  \<^verbatim>\<open>labels\<close> is an array of strings that never leaves the encoder; it is the list
  of its elements here.
\<close>

fun label_rows_h :: "hval \<Rightarrow> nat \<Rightarrow> string list \<Rightarrow> unit prog" where
  "label_rows_h values r [] = ret ()"
| "label_rows_h values r (l # ls) =
     andThen (\<lambda>h. arr_unshift (index_h h values r) (HStr l) h)
       (\<lambda>_. label_rows_h values (Suc r) ls)"

definition addColumnLabels_h :: "hval \<Rightarrow> string list \<Rightarrow> bool \<Rightarrow> unit prog" where
  "addColumnLabels_h values labels hasLineHeaders =
     (if hasLineHeaders
      then andThen (\<lambda>h. arr_unshift (index_h h values 0) (HStr ''Elements'') h)
             (\<lambda>_. label_rows_h values 1 labels)
      else label_rows_h values 0 labels)"

definition transformObjectOfObjects_h :: "nat \<Rightarrow> hval \<Rightarrow> config \<Rightarrow> hval option \<Rightarrow> hval prog" where
  "transformObjectOfObjects_h fuel data config fields' =
     andThen (new_array []) (\<lambda>values. (\<lambda>h0.
       (let entries = for_in_h h0 data;
            labels = map fst entries;
            first = (case labels of [] \<Rightarrow> ''undefined'' | l # _ \<Rightarrow> l)
        in
        if cfg_fields config = JStr ''all'' then
          andThen (for_of entries (\<lambda>(key, v).
                     andThen (extractObjectValues_h fuel v) (\<lambda>extracted.
                     arr_push values (snd extracted))))
            (\<lambda>_. if cfg_method config = JStr ''new'' then
                   andThen (if line config
                            then andThen (\<lambda>h. extractObjectValues_h fuel
                                                 (get_property_h (for_in_h h data) first) h)
                                   (\<lambda>firstExtracted. arr_unshift values (fst firstExtracted))
                            else ret ())
                     (\<lambda>_. andThen (if column config
                                    then addColumnLabels_h values labels (line config)
                                    else ret ())
                             (\<lambda>_. ret values))
                 else ret values)
        else
          (case fields' of
             Some fieldsArray \<Rightarrow>
               andThen (for_of entries (\<lambda>(key, v).
                          andThen (extractObjectValues_h fuel v) (\<lambda>extracted.
                          andThen (new_array []) (\<lambda>row.
                          andThen (for_of_value fieldsArray (select_field extracted row)) (\<lambda>_.
                          arr_push values row)))))
                 (\<lambda>_. if cfg_method config = JStr ''new'' then
                        andThen (if line config then arr_unshift values fieldsArray else ret ())
                          (\<lambda>_. andThen (if column config
                                         then addColumnLabels_h values labels (line config)
                                         else ret ())
                                  (\<lambda>_. ret values))
                      else ret values)
           | None \<Rightarrow> ret values)) h0))"

text \<open>
  \<^verbatim>\<open>transform\<close>.  \<^verbatim>\<open>Array.from(config.selfields)\<close> is a new array of the field names;
  \<^verbatim>\<open>[[data]]\<close> is a new inner array inside a new outer one; the grid-shaped input is
  returned as the reference it came as.
\<close>

definition grid_shaped :: "heap \<Rightarrow> hval \<Rightarrow> bool" where
  "grid_shaped h data =
     (case read_array h data of
        None \<Rightarrow> False
      | Some xs \<Rightarrow> 0 < length xs \<and> read_array h (cell_at xs 0) \<noteq> None)"

definition transform_h :: "nat \<Rightarrow> hval \<Rightarrow> config \<Rightarrow> hval prog" where
  "transform_h fuel data config =
     andThen (case selected config of
                Some fs \<Rightarrow> andThen (new_array (map HStr fs)) (\<lambda>fields. ret (Some fields))
              | None \<Rightarrow> ret None)
       (\<lambda>fields' h.
          if data \<noteq> HNull \<and> data \<noteq> HUndefined \<and> typeof_h data \<noteq> ''object''
          then andThen (new_array [data]) (\<lambda>inner. new_array [inner]) h
          else if grid_shaped h data
          then ret data h
          else if (case read_array h data of
                     Some xs \<Rightarrow> length xs = 1 \<and> typeof_h (cell_at xs 0) \<noteq> ''object''
                   | None \<Rightarrow> False)
          then andThen (new_array [index_h h data 0]) (\<lambda>inner. new_array [inner]) h
          else if (case read_array h data of Some xs \<Rightarrow> 0 < length xs | None \<Rightarrow> False)
          then transformArrayOfObjects_h fuel data config fields' h
          else if typeof_h data = ''object''
          then (if data = HNull then throw TypeError h
                else if get_length_h h data = HUndefined
                then transformObjectOfObjects_h fuel data config fields' h
                else throw UnsupportedFormat h)
          else throw UnsupportedFormat h)"

section \<open>What belongs to the caller\<close>

text \<open>
  \<open>extends h0 h\<close>: the store \<open>h\<close> begins with \<open>h0\<close>, so every object of \<open>h0\<close> is still
  at its address with the content it had.  A value is \<open>fresh\<close> for \<open>h0\<close> when it refers to
  an address that \<open>h0\<close> did not have, and \<open>owned\<close> by the callee when it is not an array
  of \<open>h0\<close>.  \<open>halts\<close>: the code returns or throws.
\<close>

definition extends :: "heap \<Rightarrow> heap \<Rightarrow> bool" where
  "extends h0 h = (take (length h0) h = h0)"

definition fresh :: "heap \<Rightarrow> hval \<Rightarrow> bool" where
  "fresh h0 v = (case v of HRef a \<Rightarrow> length h0 \<le> a | _ \<Rightarrow> False)"

definition owned :: "heap \<Rightarrow> hval \<Rightarrow> bool" where
  "owned h0 v = (read_array h0 v = None)"

definition halts :: "'a prog \<Rightarrow> heap \<Rightarrow> bool" where
  "halts m h = (m h \<noteq> None)"

text \<open>
  Notions the proofs about the encoder use.  \<open>builds h0 V h\<close>: the array \<open>V\<close> is new for
  \<open>h0\<close> and holds only references that are new for \<open>h0\<close> and other than \<open>V\<close> itself,
  in a store that begins with \<open>h0\<close>; \<open>keeps\<close>: a piece of code preserves that;
  \<open>yields V\<close>: what it returns, if anything, is \<open>V\<close>.  \<open>input_ok\<close>: the input and,
  when it is an array, its elements refer to addresses the store has.
\<close>

definition builds :: "heap \<Rightarrow> hval \<Rightarrow> heap \<Rightarrow> bool" where
  "builds h0 V h =
     (extends h0 h \<and> fresh h0 V
      \<and> (case read_array h V of
            None \<Rightarrow> False
          | Some acc \<Rightarrow> list_all (\<lambda>x. fresh h0 x \<and> x \<noteq> V) acc))"

definition keeps :: "heap \<Rightarrow> hval \<Rightarrow> 'a prog \<Rightarrow> bool" where
  "keeps h0 V m = (\<forall>h r h'. builds h0 V h \<longrightarrow> m h = Some (r, h') \<longrightarrow> builds h0 V h')"

definition yields :: "hval \<Rightarrow> hval prog \<Rightarrow> bool" where
  "yields V m = (\<forall>h res h'. m h = Some (Inr res, h') \<longrightarrow> res = V)"

definition in_store :: "heap \<Rightarrow> hval \<Rightarrow> bool" where
  "in_store h v = (case v of HRef a \<Rightarrow> a < length h | _ \<Rightarrow> True)"

definition input_ok :: "heap \<Rightarrow> hval \<Rightarrow> bool" where
  "input_ok h data =
     (in_store h data
      \<and> (case read_array h data of Some xs \<Rightarrow> list_all (in_store h) xs | None \<Rightarrow> True))"

text \<open>The example grid, and a grid-shaped and a record-shaped input, in a store.\<close>

definition people_store :: heap where
  "people_store =
     [HArr [HRef 1, HRef 2, HRef 3],
      HArr [HStr ''name'', HStr ''age''],
      HArr [HStr ''John'', HNum 30],
      HArr [HStr ''Jane'', HNum 25]]"

definition records_store :: heap where
  "records_store =
     [HArr [HRef 1, HRef 2],
      HObj [(''name'', HStr ''John''), (''tags'', HRef 3)],
      HObj [(''name'', HStr ''Jane''), (''tags'', HRef 3)],
      HArr [HNum 1, HNum 2]]"

subsection \<open>Reading a store value back as a tree\<close>

text \<open>
  The value-level functions and the store-level ones embed the same source text twice.
  \<open>reify\<close> reads the tree that a store value denotes (following at most \<open>fuel\<close>
  references in depth), so that the two can be compared on the examples.
\<close>

fun reify :: "nat \<Rightarrow> heap \<Rightarrow> hval \<Rightarrow> jsval option" where
  "reify fuel h HUndefined = Some JUndefined"
| "reify fuel h HNull = Some JNull"
| "reify fuel h (HBool b) = Some (JBool b)"
| "reify fuel h (HNum n) = Some (JNum n)"
| "reify fuel h (HStr s) = Some (JStr s)"
| "reify 0 h (HRef a) = None"
| "reify (Suc fuel) h (HRef a) =
     (if a < length h
      then (case h ! a of
              HArr xs \<Rightarrow> map_option JArr (those (map (reify fuel h) xs))
            | HObj ps \<Rightarrow>
                map_option JObj
                  (those (map (\<lambda>(key, v). map_option (Pair key) (reify fuel h v)) ps)))
      else None)"

definition read_back :: "((error + hval) \<times> heap) option \<Rightarrow> (error + jsval) option" where
  "read_back outcome =
     (case outcome of
        None \<Rightarrow> None
      | Some (Inl e, h) \<Rightarrow> Some (Inl e)
      | Some (Inr v, h) \<Rightarrow> map_option Inr (reify (length h) h v))"

definition people_records_store :: heap where
  "people_records_store =
     [HArr [HRef 1, HRef 2],
      HObj [(''name'', HStr ''John''), (''age'', HNum 30)],
      HObj [(''name'', HStr ''Jane''), (''age'', HNum 25)]]"

section \<open>Properties of the flattening\<close>

lemma extract_loop_append:
  "extract_loop (es @ fs) prefix acc = extract_loop fs prefix (extract_loop es prefix acc)"
proof (induction es arbitrary: acc)
  case Nil
  show ?case by simp
next
  case (Cons e es)
  obtain key v where e: "e = (key, v)" by (cases e)
  show ?case unfolding e by (simp add: Cons.IH Let_def)
qed

lemma extract_loop_same_length:
  "length (keys acc) = length (vals acc) \<Longrightarrow>
   length (keys (extract_loop es prefix acc)) = length (vals (extract_loop es prefix acc))"
  by (induction es prefix acc rule: extract_loop.induct) (auto simp: Let_def)

text \<open>
  C7.  Flattening \<^verbatim>\<open>{user:{name:"John",age:30}}\<close> gives the dotted keys
  \<^verbatim>\<open>user.name\<close>, \<^verbatim>\<open>user.age\<close> with the values \<^verbatim>\<open>"John"\<close>, \<^verbatim>\<open>30\<close>;
  flattening \<^verbatim>\<open>{items:[1,2,3]}\<close> gives the one key \<^verbatim>\<open>items\<close> with the array itself
  as its value.  An array-valued entry, wherever it stands in a record and at whatever
  depth (any prefix, any accumulated result), contributes exactly one leaf, the array
  as it is, under its own key.  The two result lists always have the same length.
\<close>

theorem extract_flattening:
  "extractObjectValues (JObj [(''user'', JObj [(''name'', JStr ''John''), (''age'', JNum 30)])])
     = \<lparr>keys = [''user.name'', ''user.age''], vals = [JStr ''John'', JNum 30]\<rparr>
   \<and> extractObjectValues (JObj [(''items'', JArr [JNum 1, JNum 2, JNum 3])])
     = \<lparr>keys = [''items''], vals = [JArr [JNum 1, JNum 2, JNum 3]]\<rparr>
   \<and> (\<forall>before key xs after prefix acc.
        extract_loop (before @ (key, JArr xs) # after) prefix acc
          = extract_loop after prefix
              ((extract_loop before prefix acc)
                 \<lparr>keys := keys (extract_loop before prefix acc)
                           @ [if prefix \<noteq> [] then prefix @ ''.'' @ key else key],
                  vals := vals (extract_loop before prefix acc) @ [JArr xs]\<rparr>))
   \<and> (\<forall>obj. length (keys (extractObjectValues obj)) = length (vals (extractObjectValues obj)))"
proof (intro conjI allI)
  show "extractObjectValues (JObj [(''user'', JObj [(''name'', JStr ''John''), (''age'', JNum 30)])])
     = \<lparr>keys = [''user.name'', ''user.age''], vals = [JStr ''John'', JNum 30]\<rparr>"
    by (simp add: extractObjectValues_def extract_closure_def get_property_def)
  show "extractObjectValues (JObj [(''items'', JArr [JNum 1, JNum 2, JNum 3])])
     = \<lparr>keys = [''items''], vals = [JArr [JNum 1, JNum 2, JNum 3]]\<rparr>"
    by (simp add: extractObjectValues_def extract_closure_def)
next
  fix before key xs after prefix acc
  show "extract_loop (before @ (key, JArr xs) # after) prefix acc
          = extract_loop after prefix
              ((extract_loop before prefix acc)
                 \<lparr>keys := keys (extract_loop before prefix acc)
                           @ [if prefix \<noteq> [] then prefix @ ''.'' @ key else key],
                  vals := vals (extract_loop before prefix acc) @ [JArr xs]\<rparr>)"
    by (simp add: extract_loop_append Let_def)
next
  fix obj
  show "length (keys (extractObjectValues obj)) = length (vals (extractObjectValues obj))"
    unfolding extractObjectValues_def extract_closure_def
    by (rule extract_loop_same_length) simp
qed

text \<open>
  C10.  Whether a field's value is flattened or kept as one leaf is decided by its
  \<^verbatim>\<open>length\<close> property and by nothing else: for an entry whose value is a plain
  object, wherever the entry stands and at whatever depth, the object is walked into (its
  fields under dotted keys) when its \<^verbatim>\<open>length\<close> is \<^verbatim>\<open>undefined\<close>, and is
  emitted as it is, as a single leaf under its own key, when it has a \<^verbatim>\<open>length\<close>
  that is not \<^verbatim>\<open>undefined\<close>.  So \<^verbatim>\<open>{a:{length:2,x:1}}\<close> flattens to the one key
  \<^verbatim>\<open>a\<close> holding the whole inner object.
\<close>

theorem length_property_decides_leaf:
  "extract_loop (before @ (key, JObj ps) # after) prefix acc
     = (if get_property ps ''length'' = JUndefined
        then extract_loop after prefix
               (extract_loop ps (if prefix \<noteq> [] then prefix @ ''.'' @ key else key)
                  (extract_loop before prefix acc))
        else extract_loop after prefix
               ((extract_loop before prefix acc)
                  \<lparr>keys := keys (extract_loop before prefix acc)
                            @ [if prefix \<noteq> [] then prefix @ ''.'' @ key else key],
                   vals := vals (extract_loop before prefix acc) @ [JObj ps]\<rparr>))
   \<and> extractObjectValues (JObj [(''a'', JObj [(''length'', JNum 2), (''x'', JNum 1)])])
     = \<lparr>keys = [''a''], vals = [JObj [(''length'', JNum 2), (''x'', JNum 1)]]\<rparr>"
  by (simp add: extract_loop_append Let_def extractObjectValues_def extract_closure_def
      get_property_def)

section \<open>Properties of the write encoder\<close>

lemma label_rows_result:
  "r + length ls \<le> length vs \<Longrightarrow>
   \<exists>ws. label_rows r ls vs = Inr ws \<and> length ws = length vs \<and>
     (\<forall>j<length vs. ws ! j =
        (if r \<le> j \<and> j < r + length ls then JStr (ls ! (j - r)) # vs ! j else vs ! j))"
proof (induction ls arbitrary: r vs)
  case Nil
  then show ?case by simp
next
  case (Cons l ls)
  let ?v = "vs[r := JStr l # vs ! r]"
  from Cons.prems have r: "r < length vs" by simp
  have step: "label_rows r (l # ls) vs = label_rows (Suc r) ls ?v"
    using r by (simp add: unshift_row_def)
  from Cons.prems have "Suc r + length ls \<le> length ?v" by simp
  from Cons.IH [OF this] obtain ws where
    v': "label_rows (Suc r) ls ?v = Inr ws" "length ws = length ?v"
      "\<forall>j<length ?v. ws ! j =
        (if Suc r \<le> j \<and> j < Suc r + length ls then JStr (ls ! (j - Suc r)) # ?v ! j else ?v ! j)"
    by blast
  have "\<forall>j<length vs. ws ! j =
        (if r \<le> j \<and> j < r + length (l # ls) then JStr ((l # ls) ! (j - r)) # vs ! j
         else vs ! j)"
  proof (intro allI impI)
    fix j assume j: "j < length vs"
    show "ws ! j =
        (if r \<le> j \<and> j < r + length (l # ls) then JStr ((l # ls) ! (j - r)) # vs ! j
         else vs ! j)"
    proof (cases "j = r")
      case True
      with v'(3) j show ?thesis by simp
    next
      case False
      with v'(3) j show ?thesis by (auto simp: nth_Cons')
    qed
  qed
  with v' step show ?case by simp
qed

lemma addColumnLabels_result:
  assumes "length vs = length labels + (if hasLineHeaders then 1 else 0)"
  shows "\<exists>ws. addColumnLabels vs labels hasLineHeaders = Inr ws \<and>
     length ws = length vs \<and>
     (hasLineHeaders \<longrightarrow> ws ! 0 = JStr ''Elements'' # vs ! 0) \<and>
     (\<forall>i<length labels. ws ! (i + (if hasLineHeaders then 1 else 0))
          = JStr (labels ! i) # vs ! (i + (if hasLineHeaders then 1 else 0)))"
proof (cases hasLineHeaders)
  case False
  with assms have "0 + length labels \<le> length vs" by simp
  from label_rows_result [OF this] obtain ws where
    "label_rows 0 labels vs = Inr ws" "length ws = length vs"
    "\<forall>j<length vs. ws ! j =
        (if 0 \<le> j \<and> j < 0 + length labels then JStr (labels ! (j - 0)) # vs ! j else vs ! j)"
    by blast
  with False assms show ?thesis by (simp add: addColumnLabels_def)
next
  case True
  let ?v = "vs[0 := JStr ''Elements'' # vs ! 0]"
  from True assms have len: "length vs = Suc (length labels)" by simp
  then have first: "unshift_row 0 (JStr ''Elements'') vs = Inr ?v"
    by (simp add: unshift_row_def)
  from len have "1 + length labels \<le> length ?v" by simp
  from label_rows_result [OF this] obtain ws where
    v': "label_rows 1 labels ?v = Inr ws" "length ws = length ?v"
    "\<forall>j<length ?v. ws ! j =
        (if 1 \<le> j \<and> j < 1 + length labels then JStr (labels ! (j - 1)) # ?v ! j else ?v ! j)"
    by blast
  have "ws ! 0 = JStr ''Elements'' # vs ! 0"
    using v'(3) len by simp
  moreover have "\<forall>i<length labels. ws ! (i + 1) = JStr (labels ! i) # vs ! (i + 1)"
    using v'(3) len by simp
  ultimately show ?thesis
    using True first v'(1,2) by (simp add: addColumnLabels_def)
qed

lemma transform_object:
  "transform (JObj data) config =
     (if get_property data ''length'' = JUndefined
      then (case transformObjectOfObjects data config (selected config) of
              Inl e \<Rightarrow> Inl e
            | Inr vs \<Rightarrow> Inr (grid_value vs))
      else Inl UnsupportedFormat)"
  by (simp add: transform_def)

lemma transformObjectOfObjects_returns:
  "\<exists>vs. transformObjectOfObjects data config fs = Inr vs"
proof -
  have a: "\<And>vs. length vs = length data + (if line config then 1 else 0) \<Longrightarrow>
      \<exists>ws. addColumnLabels vs (map fst data) (line config) = Inr ws"
  proof -
    fix vs :: "jsval list list"
    assume "length vs = length data + (if line config then 1 else 0)"
    then have "length vs = length (map fst data) + (if line config then 1 else 0)" by simp
    from addColumnLabels_result [OF this] show "\<exists>ws. addColumnLabels vs (map fst data) (line config) = Inr ws"
      by blast
  qed
  show ?thesis
  proof (cases "cfg_fields config = JStr ''all''")
    case True
    then show ?thesis
      using a by (auto simp: transformObjectOfObjects_def Let_def)
  next
    case False
    then show ?thesis
      using a by (cases fs) (auto simp: transformObjectOfObjects_def Let_def)
  qed
qed

lemma transform_array:
  "transform (JArr xs) config =
     (if xs = [] then Inl UnsupportedFormat
      else if isArray (hd xs) then Inr (JArr xs)
      else if length xs = 1 \<and> typeof (hd xs) \<noteq> ''object'' then Inr (JArr [JArr [hd xs]])
      else Inr (grid_value (transformArrayOfObjects xs config (selected config))))"
  by (cases xs) (auto simp: transform_def array_get_def)

text \<open>
  C5 (as amended).  A mapping of key to record whose \<^verbatim>\<open>length\<close> property is
  \<^verbatim>\<open>undefined\<close> (so with no record under the key \<^verbatim>\<open>length\<close>), encoded with
  \<^verbatim>\<open>method\<close> \<^verbatim>\<open>"new"\<close>, \<^verbatim>\<open>column\<close> set and a field selection (all fields or a
  list of names), gives one data row per entry, in the mapping's order, and element 0 of
  each data row is the entry's key.  With \<^verbatim>\<open>line\<close> set as well there is one more row in front, the header
  row, whose element 0 is \<^verbatim>\<open>"Elements"\<close>, and the labelled data rows start one row
  further down.
\<close>

theorem object_of_objects_row_labels:
  assumes "get_property data ''length'' = JUndefined"
      and "cfg_method config = JStr ''new''"
      and "column config"
      and "cfg_fields config = JStr ''all'' \<or> selected config \<noteq> None"
  shows "\<exists>rows. transform (JObj data) config = Inr (grid_value rows)
          \<and> length rows = length data + (if line config then 1 else 0)
          \<and> (\<forall>i<length data.
                \<exists>cells. rows ! (i + (if line config then 1 else 0)) = JStr (fst (data ! i)) # cells)
          \<and> (line config \<longrightarrow> (\<exists>names. rows ! 0 = JStr ''Elements'' # names))"
proof -
  define off :: nat where "off = (if line config then 1 else 0)"
  define body where "body =
     (if cfg_fields config = JStr ''all''
      then map (\<lambda>(key, v). vals (extractObjectValues v)) data
      else map (\<lambda>(key, v). select_loop (the (selected config)) (extractObjectValues v) []) data)"
  define header where "header =
     (if cfg_fields config = JStr ''all''
      then map JStr (keys (extractObjectValues
             (get_property data (case map fst data of [] \<Rightarrow> ''undefined'' | l # _ \<Rightarrow> l))))
      else map JStr (the (selected config)))"
  define vs where "vs = (if line config then header # body else body)"
  have call: "transformObjectOfObjects data config (selected config)
      = addColumnLabels vs (map fst data) (line config)"
    using assms(2,3,4)
    by (auto simp: transformObjectOfObjects_def Let_def vs_def header_def body_def)
  have "length vs = length (map fst data) + (if line config then 1 else 0)"
    by (simp add: vs_def body_def)
  from addColumnLabels_result [OF this] obtain ws where
    ws: "addColumnLabels vs (map fst data) (line config) = Inr ws"
        "length ws = length vs"
        "line config \<longrightarrow> ws ! 0 = JStr ''Elements'' # vs ! 0"
        "\<forall>i<length (map fst data). ws ! (i + (if line config then 1 else 0))
          = JStr (map fst data ! i) # vs ! (i + (if line config then 1 else 0))"
    by blast
  have "transform (JObj data) config = Inr (grid_value ws)"
    using assms(1) call ws(1) by (simp add: transform_object)
  moreover have "length ws = length data + (if line config then 1 else 0)"
    using ws(2) by (simp add: vs_def body_def)
  moreover have "\<forall>i<length data.
        \<exists>cells. ws ! (i + (if line config then 1 else 0)) = JStr (fst (data ! i)) # cells"
    using ws(4) by simp
  moreover have "line config \<longrightarrow> (\<exists>names. ws ! 0 = JStr ''Elements'' # names)"
    using ws(3) by simp
  ultimately show ?thesis by blast
qed



text \<open>The amended C5 at a mapping of two records, with both header flags.\<close>

theorem object_of_objects_row_labels_witness:
  "\<exists>rows. transform (JObj [(''user1'', JObj [(''name'', JStr ''John''), (''age'', JNum 30)]),
                    (''user2'', JObj [(''name'', JStr ''Jane''), (''age'', JNum 25)])])
               (line_header_config\<lparr>column := True\<rparr>) = Inr (grid_value rows)
          \<and> length rows = 3
          \<and> (\<exists>cells. rows ! 1 = JStr ''user1'' # cells)
          \<and> (\<exists>cells. rows ! 2 = JStr ''user2'' # cells)
          \<and> (\<exists>names. rows ! 0 = JStr ''Elements'' # names)"
proof -
  let ?data = "[(''user1'', JObj [(''name'', JStr ''John''), (''age'', JNum 30)]),
                (''user2'', JObj [(''name'', JStr ''Jane''), (''age'', JNum 25)])]"
  let ?config = "line_header_config\<lparr>column := True\<rparr>"
  have "get_property ?data ''length'' = JUndefined"
    by (simp add: get_property_def)
  moreover have "cfg_method ?config = JStr ''new''" "column ?config"
    "cfg_fields ?config = JStr ''all'' \<or> selected ?config \<noteq> None" "line ?config"
    by (simp_all add: line_header_config_def)
  ultimately obtain rows where
    r: "transform (JObj ?data) ?config = Inr (grid_value rows)"
       "length rows = length ?data + 1"
       "\<forall>i<length ?data. \<exists>cells. rows ! (i + 1) = JStr (fst (?data ! i)) # cells"
       "\<exists>names. rows ! 0 = JStr ''Elements'' # names"
    using object_of_objects_row_labels [of ?data ?config] by auto
  have "0 < length ?data" and "1 < length ?data" by simp_all
  from r(3) [rule_format, OF this(1)] r(3) [rule_format, OF this(2)]
  have "\<exists>cells. rows ! 1 = JStr ''user1'' # cells" "\<exists>cells. rows ! 2 = JStr ''user2'' # cells"
    by (simp_all add: numeral_2_eq_2)
  with r(1,2,4) show ?thesis
    by (intro exI [of _ rows]) simp
qed

text \<open>
  C5 as it is written fails: with \<^verbatim>\<open>column\<close> set but \<^verbatim>\<open>method\<close>
  \<^verbatim>\<open>"append"\<close> no label is added, and element 0 of the only data row is the first
  field's value, not the key \<^verbatim>\<open>user1\<close>; with no field selection there is no row
  at all, not even the header row; and a mapping with a record under the key
  \<^verbatim>\<open>length\<close> is not encoded: its \<^verbatim>\<open>length\<close> is not \<^verbatim>\<open>undefined\<close>, and the
  encoder signals the unsupported format.
\<close>

theorem row_labels_need_method_new_counterexample:
  "transform (JObj [(''user1'', JObj [(''name'', JStr ''John''), (''age'', JNum 30)])])
      (line_header_config\<lparr>line := False, column := True, cfg_method := JStr ''append''\<rparr>)
     = Inr (JArr [JArr [JStr ''John'', JNum 30]])
   \<and> array_get [JStr ''John'', JNum 30] 0 \<noteq> JStr ''user1''
   \<and> transform (JObj [(''user1'', JObj [(''name'', JStr ''John''), (''age'', JNum 30)])])
        (line_header_config\<lparr>column := True, cfg_fields := JUndefined\<rparr>)
       = Inr (JArr [])
   \<and> transform (JObj [(''length'', JObj [(''a'', JNum 1)]), (''width'', JObj [(''a'', JNum 2)])])
        (line_header_config\<lparr>column := True\<rparr>)
       = Inl UnsupportedFormat"
  by code_simp

text \<open>
  At \<^verbatim>\<open>null\<close> no branch of \<^verbatim>\<open>transform\<close> is taken before the last test reads
  \<^verbatim>\<open>data.length\<close>, and that read throws: the caller sees a \<^verbatim>\<open>TypeError\<close>, not the
  encoder's own error.
\<close>

lemma transform_null:
  "transform JNull config = Inl TypeError"
  by (simp add: transform_def)

text \<open>
  C3 (as amended).  For an input other than \<^verbatim>\<open>null\<close>, the encoder signals
  \<^verbatim>\<open>UnsupportedFormat\<close> exactly when the input is \<^verbatim>\<open>undefined\<close>, the empty
  array, or an object whose \<^verbatim>\<open>length\<close> property is not \<^verbatim>\<open>undefined\<close>.  The
  empty plain object is none of these: it is encoded as a mapping without entries, and
  the result is a grid.
\<close>

theorem unsupported_format_inputs:
  assumes "data \<noteq> JNull"
  shows "(transform data config = Inl UnsupportedFormat)
       = (data = JUndefined \<or> data = JArr []
          \<or> (\<exists>ps. data = JObj ps \<and> get_property ps ''length'' \<noteq> JUndefined))
     \<and> (\<exists>rows. transform (JObj []) config = Inr (grid_value rows))"
proof
  show "\<exists>rows. transform (JObj []) config = Inr (grid_value rows)"
    using transformObjectOfObjects_returns [of "[]" config "selected config"]
    by (auto simp: transform_object get_property_def)
  show "(transform data config = Inl UnsupportedFormat)
       = (data = JUndefined \<or> data = JArr []
          \<or> (\<exists>ps. data = JObj ps \<and> get_property ps ''length'' \<noteq> JUndefined))"
  proof (cases data)
    case (JArr xs)
    then show ?thesis by (simp add: transform_array)
  next
    case (JObj ps)
    obtain vs where "transformObjectOfObjects ps config (selected config) = Inr vs"
      using transformObjectOfObjects_returns by blast
    with JObj show ?thesis by (simp add: transform_object)
  qed (use assms in \<open>simp_all add: transform_def\<close>)
qed

theorem unsupported_format_inputs_witness:
  "transform (JArr []) line_header_config = Inl UnsupportedFormat
   \<and> transform JUndefined line_header_config = Inl UnsupportedFormat
   \<and> transform (JObj [(''length'', JNum 0)]) line_header_config = Inl UnsupportedFormat
   \<and> transform (JObj [(''a'', JObj [(''b'', JNum 1)])]) line_header_config \<noteq> Inl UnsupportedFormat"
  using unsupported_format_inputs [of "JArr []" line_header_config]
    unsupported_format_inputs [of JUndefined line_header_config]
    unsupported_format_inputs [of "JObj [(''length'', JNum 0)]" line_header_config]
    unsupported_format_inputs [of "JObj [(''a'', JObj [(''b'', JNum 1)])]" line_header_config]
  by (simp add: get_property_def)

text \<open>
  C3 as it is written fails at the empty plain object: the encoder returns a grid (the
  empty header row alone when a header row is asked for, no row at all otherwise).
\<close>

theorem empty_object_counterexample:
  "transform (JObj []) line_header_config = Inr (JArr [JArr []])
   \<and> transform (JObj []) (line_header_config\<lparr>cfg_method := JStr ''append''\<rparr>) = Inr (JArr [])"
  by (simp add: transform_def transformObjectOfObjects_def line_header_config_def
      extractObjectValues_def extract_closure_def get_property_def grid_value_def)

section \<open>Properties of the read decoder\<close>

lemma encode_people:
  "cfg_fields config = JStr ''all'' \<Longrightarrow> cfg_method config = JStr ''new'' \<Longrightarrow> line config \<Longrightarrow>
   transform people_records config = Inr (grid_value people_grid)"
  by (simp add: people_records_def people_grid_def transform_def transformArrayOfObjects_def
      extractObjectValues_def extract_closure_def grid_value_def array_get_def)

lemma not_index_name: "\<not> is_array_index ''name''" "\<not> is_array_index ''age''"
  "\<not> is_array_index ''John''" "\<not> is_array_index ''Jane''"
  by (simp_all add: is_array_index_def is_digit_def)

lemma decode_people_mismatch:
  "line config \<Longrightarrow> \<not> column config \<Longrightarrow> direction config \<noteq> JStr ''line'' \<Longrightarrow>
   md \<noteq> JStr ''ROWS'' \<Longrightarrow>
   transformGetResponse people_grid config md = Inr people_records"
  by (simp add: people_records_def people_grid_def transformGetResponse_def
      transformToObjectArray_def copyValuesArray_def shift_def fill_record_def set_property_def
      not_index_name array_get_def)

lemma decode_people_rows:
  "line config \<Longrightarrow> \<not> column config \<Longrightarrow>
   transformGetResponse people_grid config (JStr ''ROWS'') = Inr people_by_label"
  by (simp add: people_by_label_def people_grid_def transformGetResponse_def
      transformWithSingleHeader_def copyValuesArray_def shift_def shift_cell_def set_property_def
      not_index_name)

subsection \<open>The two single-header forms\<close>

text \<open>
  With pairwise different plain names for keys, every assignment of the two decoders adds
  a new last property, so that the record of a row is the header row zipped with it, and
  the mapping has one entry per row, in the order of the rows.
\<close>

lemma set_property_new:
  "key \<notin> fst ` set ps \<Longrightarrow> plain_name key \<Longrightarrow> set_property ps key v = ps @ [(key, v)]"
  by (simp add: set_property_def plain_name_def)

lemma fill_record_prefix:
  assumes "distinct names" and "list_all plain_name names" and "length row \<le> length names"
  shows "n \<le> length row \<Longrightarrow>
    fold (\<lambda>i newl. set_property newl (to_string (array_get (map JStr names) i)) (array_get row i))
      [0..<n] [] = zip (take n names) (take n row)"
proof (induction n)
  case 0
  show ?case by simp
next
  case (Suc n)
  from Suc.prems have n: "n < length row" "n < length names" using assms(3) by simp_all
  have key: "to_string (array_get (map JStr names) n) = names ! n"
    using n by (simp add: array_get_def)
  have cell: "array_get row n = row ! n"
    using n by (simp add: array_get_def)
  have "names ! n \<notin> set (take n names)"
  proof
    assume "names ! n \<in> set (take n names)"
    then obtain j where j: "j < n" "take n names ! j = names ! n"
      using n by (auto simp: in_set_conv_nth)
    then have "names ! j = names ! n" by simp
    with assms(1) j(1) n(2) show False
      by (simp add: nth_eq_iff_index_eq)
  qed
  moreover have "fst ` set (zip (take n names) (take n row)) \<subseteq> set (take n names)"
    by (auto dest: set_zip_leftD)
  ultimately have new: "names ! n \<notin> fst ` set (zip (take n names) (take n row))"
    by blast
  have plain: "plain_name (names ! n)"
    using assms(2) n(2) by (simp add: list_all_length)
  have "fold (\<lambda>i newl. set_property newl (to_string (array_get (map JStr names) i)) (array_get row i))
      [0..<Suc n] []
    = set_property (zip (take n names) (take n row)) (names ! n) (row ! n)"
    using Suc.IH n by (simp add: key cell)
  also have "\<dots> = zip (take n names) (take n row) @ [(names ! n, row ! n)]"
    by (rule set_property_new [OF new plain])
  also have "\<dots> = zip (take (Suc n) names) (take (Suc n) row)"
    using n by (simp add: take_Suc_conv_app_nth)
  finally show ?case .
qed

lemma fill_record_zip:
  assumes "distinct names" and "list_all plain_name names" and "length row \<le> length names"
  shows "fill_record (map JStr names) row = zip names row"
proof -
  have "fill_record (map JStr names) row = zip (take (length row) names) (take (length row) row)"
    unfolding fill_record_def by (rule fill_record_prefix [OF assms]) simp
  also have "\<dots> = take (length row) (zip names row)"
    by (simp add: take_zip)
  also have "\<dots> = zip names row"
    using assms(3) by simp
  finally show ?thesis .
qed

lemma single_header_fold:
  "distinct (map fst entries) \<Longrightarrow> list_all plain_name (map fst entries) \<Longrightarrow>
   fst ` set objet \<inter> fst ` set entries = {} \<Longrightarrow>
   fold (\<lambda>obj0 objet. (let (label, obj) = shift_cell obj0
                        in set_property objet (to_string label) (JArr obj)))
     (map (\<lambda>(label, cells). JStr label # cells) entries) objet
   = objet @ map (\<lambda>(label, cells). (label, JArr cells)) entries"
proof (induction entries arbitrary: objet)
  case Nil
  show ?case by simp
next
  case (Cons e entries)
  obtain label cells where e: "e = (label, cells)" by (cases e)
  have new: "label \<notin> fst ` set objet" and plain: "plain_name label"
    using Cons.prems e by auto
  have step: "set_property objet label (JArr cells) = objet @ [(label, JArr cells)]"
    by (rule set_property_new [OF new plain])
  have "fst ` set (objet @ [(label, JArr cells)]) \<inter> fst ` set entries = {}"
    using Cons.prems e by auto
  with Cons.IH [of "objet @ [(label, JArr cells)]"] Cons.prems
  show ?case
    by (simp add: e shift_cell_def shift_def step)
qed

lemma single_header_entries:
  assumes "distinct (map fst entries)" and "list_all plain_name (map fst entries)"
  shows "transformWithSingleHeader (map (\<lambda>(label, cells). JStr label # cells) entries)
       = JObj (map (\<lambda>(label, cells). (label, JArr cells)) entries)"
  unfolding transformWithSingleHeader_def
  using single_header_fold [OF assms, of "[]"] by simp

lemma object_array_zip:
  assumes "distinct names" and "list_all plain_name names"
      and "list_all (\<lambda>row. length row \<le> length names) rows"
  shows "transformToObjectArray (map JStr names # rows)
       = JArr (map (\<lambda>row. JObj (zip names row)) rows)"
proof -
  have "map (\<lambda>obj. JObj (fill_record (map JStr names) obj)) rows
      = map (\<lambda>row. JObj (zip names row)) rows"
    using assms(3) by (auto simp: list_all_iff fill_record_zip [OF assms(1,2)])
  then show ?thesis
    by (simp add: transformToObjectArray_def shift_def)
qed

text \<open>
  C2 (as amended).  The grid \<^verbatim>\<open>[["name","age"],["John",30],["Jane",25]]\<close>, decoded
  with only \<^verbatim>\<open>line\<close> set and a \<^verbatim>\<open>direction\<close> other than \<^verbatim>\<open>"line"\<close>: under the
  major dimension \<^verbatim>\<open>"COLUMNS"\<close> the result is the array of records
  \<^verbatim>\<open>[{name:"John",age:30},{name:"Jane",age:25}]\<close>; under \<^verbatim>\<open>"ROWS"\<close> it is the
  mapping from each row's first cell to the array of its other cells.  So it is for
  every grid: when the first row holds pairwise different plain names and no later row is
  longer than it, a major dimension other than \<^verbatim>\<open>"ROWS"\<close> gives one record per later
  row, the first row zipped by position with that row; and when the rows begin with
  pairwise different plain names, \<^verbatim>\<open>"ROWS"\<close> gives the mapping from each row's first
  cell to the array of its remaining cells, in the order of the rows.
\<close>

theorem orientation_mismatch_fallback:
  assumes "line config" and "\<not> column config" and "direction config \<noteq> JStr ''line''"
  shows "transformGetResponse people_grid config (JStr ''COLUMNS'') = Inr people_records
     \<and> transformGetResponse people_grid config (JStr ''ROWS'') = Inr people_by_label
     \<and> (distinct names \<and> list_all plain_name names
          \<and> list_all (\<lambda>row. length row \<le> length names) rows \<and> md \<noteq> JStr ''ROWS'' \<longrightarrow>
        transformGetResponse (map JStr names # rows) config md
          = Inr (JArr (map (\<lambda>row. JObj (zip names row)) rows)))
     \<and> (distinct (map fst entries) \<and> list_all plain_name (map fst entries) \<longrightarrow>
        transformGetResponse (map (\<lambda>(label, cells). JStr label # cells) entries) config
            (JStr ''ROWS'')
          = Inr (JObj (map (\<lambda>(label, cells). (label, JArr cells)) entries)))"
proof (intro conjI impI)
  show "transformGetResponse people_grid config (JStr ''COLUMNS'') = Inr people_records"
    using assms by (simp add: decode_people_mismatch)
  show "transformGetResponse people_grid config (JStr ''ROWS'') = Inr people_by_label"
    using assms by (simp add: decode_people_rows)
next
  assume a: "distinct names \<and> list_all plain_name names
      \<and> list_all (\<lambda>row. length row \<le> length names) rows \<and> md \<noteq> JStr ''ROWS''"
  then have "transformToObjectArray (map JStr names # rows)
      = JArr (map (\<lambda>row. JObj (zip names row)) rows)"
    by (simp add: object_array_zip)
  with a assms show "transformGetResponse (map JStr names # rows) config md
      = Inr (JArr (map (\<lambda>row. JObj (zip names row)) rows))"
    by (simp add: transformGetResponse_def copyValuesArray_def)
next
  assume a: "distinct (map fst entries) \<and> list_all plain_name (map fst entries)"
  then have "transformWithSingleHeader (map (\<lambda>(label, cells). JStr label # cells) entries)
       = JObj (map (\<lambda>(label, cells). (label, JArr cells)) entries)"
    by (simp add: single_header_entries)
  with assms show "transformGetResponse (map (\<lambda>(label, cells). JStr label # cells) entries) config
            (JStr ''ROWS'')
          = Inr (JObj (map (\<lambda>(label, cells). (label, JArr cells)) entries))"
    by (simp add: transformGetResponse_def copyValuesArray_def)
qed

text \<open>
  The amended C2 with \<^verbatim>\<open>direction\<close> \<^verbatim>\<open>"column"\<close>, the configuration under which the
  node asks the service for \<^verbatim>\<open>"COLUMNS"\<close>, at the example and at two more grids with a
  short row.
\<close>

theorem orientation_mismatch_fallback_witness:
  "transformGetResponse people_grid (line_header_config\<lparr>direction := JStr ''column''\<rparr>)
       (JStr ''COLUMNS'') = Inr people_records
   \<and> transformGetResponse people_grid (line_header_config\<lparr>direction := JStr ''column''\<rparr>)
       (JStr ''ROWS'') = Inr people_by_label
   \<and> transformGetResponse
       [[JStr ''id'', JStr ''city''], [JNum 1, JStr ''Oslo''], [JNum 2]]
       (line_header_config\<lparr>direction := JStr ''column''\<rparr>) (JStr ''COLUMNS'')
     = Inr (JArr [JObj [(''id'', JNum 1), (''city'', JStr ''Oslo'')], JObj [(''id'', JNum 2)]])
   \<and> transformGetResponse
       [[JStr ''x'', JNum 1, JNum 2], [JStr ''y'']]
       (line_header_config\<lparr>direction := JStr ''column''\<rparr>) (JStr ''ROWS'')
     = Inr (JObj [(''x'', JArr [JNum 1, JNum 2]), (''y'', JArr [])])"
  using orientation_mismatch_fallback [of "line_header_config\<lparr>direction := JStr ''column''\<rparr>"
      "[''id'', ''city'']" "[[JNum 1, JStr ''Oslo''], [JNum 2]]" "JStr ''COLUMNS''"
      "[(''x'', [JNum 1, JNum 2]), (''y'', [])]"]
  by (simp add: line_header_config_def plain_name_def is_array_index_def is_digit_def)

text \<open>
  C2 as it is written fails when the configuration, with only \<^verbatim>\<open>line\<close> set, has the
  \<^verbatim>\<open>direction\<close> \<^verbatim>\<open>"line"\<close>: the test of the source then holds whatever the major
  dimension is, and under \<^verbatim>\<open>"COLUMNS"\<close> the result is the mapping, not the records.
\<close>

theorem direction_line_counterexample:
  "line (line_header_config\<lparr>direction := JStr ''line''\<rparr>)
   \<and> \<not> column (line_header_config\<lparr>direction := JStr ''line''\<rparr>)
   \<and> transformGetResponse people_grid (line_header_config\<lparr>direction := JStr ''line''\<rparr>)
       (JStr ''COLUMNS'') = Inr people_by_label
   \<and> people_by_label \<noteq> people_records"
  by code_simp

text \<open>
  C1 (as amended).  Encoding the two records with all fields, \<^verbatim>\<open>method\<close>
  \<^verbatim>\<open>"new"\<close> and \<^verbatim>\<open>line\<close> set gives the grid
  \<^verbatim>\<open>[["name","age"],["John",30],["Jane",25]]\<close>.  Decoding that grid with the same
  line-header-only configuration (its \<^verbatim>\<open>direction\<close> not \<^verbatim>\<open>"line"\<close>) gives back
  the two records when the major dimension is \<^verbatim>\<open>"COLUMNS"\<close>; when it is
  \<^verbatim>\<open>"ROWS"\<close> the result is the mapping from first cell to remaining cells.
\<close>

theorem round_trip_people:
  assumes "cfg_fields config = JStr ''all''" and "cfg_method config = JStr ''new''"
      and "line config" and "\<not> column config" and "direction config \<noteq> JStr ''line''"
  shows "transform people_records config = Inr (grid_value people_grid)
     \<and> transformGetResponse people_grid config (JStr ''COLUMNS'') = Inr people_records
     \<and> transformGetResponse people_grid config (JStr ''ROWS'') = Inr people_by_label"
  using assms by (simp add: encode_people decode_people_mismatch decode_people_rows)

theorem round_trip_people_witness:
  "transform people_records line_header_config = Inr (grid_value people_grid)
     \<and> transformGetResponse people_grid line_header_config (JStr ''COLUMNS'') = Inr people_records
     \<and> transformGetResponse people_grid line_header_config (JStr ''ROWS'') = Inr people_by_label"
  using round_trip_people [of line_header_config] by (simp add: line_header_config_def)

text \<open>
  C1 as it is written fails: under the major dimension \<^verbatim>\<open>"ROWS"\<close> the decoder does
  not give the records back.
\<close>

theorem round_trip_rows_counterexample:
  "transform people_records line_header_config = Inr (grid_value people_grid)
   \<and> transformGetResponse people_grid line_header_config (JStr ''ROWS'') \<noteq> Inr people_records"
proof
  show "transform people_records line_header_config = Inr (grid_value people_grid)"
    by (rule encode_people) (simp_all add: line_header_config_def)
  have "transformGetResponse people_grid line_header_config (JStr ''ROWS'') = Inr people_by_label"
    by (rule decode_people_rows) (simp_all add: line_header_config_def)
  then show "transformGetResponse people_grid line_header_config (JStr ''ROWS'') \<noteq> Inr people_records"
    by (simp add: people_by_label_def people_records_def)
qed

text \<open>
  C8.  With neither header flag set, a grid of exactly one row with exactly one cell
  decodes to that cell (so \<^verbatim>\<open>[[42]]\<close> decodes to \<^verbatim>\<open>42\<close>), and every other grid
  decodes to itself.
\<close>

theorem single_cell_unwrap:
  assumes "\<not> line config" and "\<not> column config"
  shows "transformGetResponse [[JNum 42]] config majorDimension = Inr (JNum 42)
     \<and> transformGetResponse [[cell]] config majorDimension = Inr cell
     \<and> ((\<forall>c. grid \<noteq> [[c]]) \<longrightarrow>
          transformGetResponse grid config majorDimension = Inr (grid_value grid))"
proof -
  have one: "\<And>c. transformGetResponse [[c]] config majorDimension = Inr c"
    using assms by (simp add: transformGetResponse_def copyValuesArray_def)
  have other: "transformGetResponse grid config majorDimension = Inr (grid_value grid)"
    if "\<forall>c. grid \<noteq> [[c]]"
  proof -
    have "\<not> (length grid = 1 \<and> length (grid ! 0) = 1)"
    proof
      assume a: "length grid = 1 \<and> length (grid ! 0) = 1"
      then obtain row where g: "grid = [row]" by (cases grid) auto
      with a obtain c where "row = [c]" by (cases row) auto
      with g that show False by simp
    qed
    then show ?thesis
      using assms by (auto simp: transformGetResponse_def copyValuesArray_def)
  qed
  from one other show ?thesis by blast
qed

theorem single_cell_unwrap_witness:
  "transformGetResponse [[JNum 42]] (line_header_config\<lparr>line := False\<rparr>) (JStr ''ROWS'') = Inr (JNum 42)
   \<and> transformGetResponse [[JNum 1, JNum 2], [JNum 3, JNum 4]]
        (line_header_config\<lparr>line := False\<rparr>) (JStr ''ROWS'')
      = Inr (JArr [JArr [JNum 1, JNum 2], JArr [JNum 3, JNum 4]])"
  using single_cell_unwrap [of "line_header_config\<lparr>line := False\<rparr>" "JStr ''ROWS''" "JNum 42"
      "[[JNum 1, JNum 2], [JNum 3, JNum 4]]"]
  by (simp add: line_header_config_def grid_value_def)

section \<open>Properties of the point lookup\<close>

lemma indexOf_absent: "x \<notin> set xs \<Longrightarrow> indexOf xs x = - 1"
  by (induction xs) auto

lemma indexOf_first: "x \<notin> set pre \<Longrightarrow> indexOf (pre @ x # post) x = int (length pre)"
  by (induction pre) (auto simp: Let_def)

lemma scan_rows_no_match:
  "\<forall>row\<in>set rows. array_get row 0 \<noteq> JStr cell_l \<Longrightarrow>
   scan_rows rows cell_l colIndex = JStr ''Not found''"
  by (induction rows) auto

lemma scan_rows_first_match:
  "\<forall>r\<in>set skipped. array_get r 0 \<noteq> JStr cell_l \<Longrightarrow> array_get row 0 = JStr cell_l \<Longrightarrow>
   scan_rows (skipped @ row # remaining) cell_l colIndex =
     (if array_get row colIndex \<noteq> JUndefined \<and> array_get row colIndex \<noteq> JStr ''''
      then array_get row colIndex else JStr ''Not found'')"
  by (induction skipped) (auto simp: Let_def)

text \<open>
  C9 (as amended).  The lookup never throws and answers \<^verbatim>\<open>"Not found"\<close> when there is
  no grid or no row 0, when the column label is not in row 0, and when no later row starts
  with the row label.  Otherwise, with the column label first found at position \<open>j\<close> of
  row 0 and \<open>row\<close> the first later row that starts with the row label, it answers
  \<^verbatim>\<open>"Not found"\<close> when cell \<open>j\<close> of \<open>row\<close> is absent or the empty string, and
  the value of that cell in every other case.
\<close>

theorem point_lookup_cases:
  "transformCellResponse None cell_l cell_c = JStr ''Not found''
   \<and> transformCellResponse (Some []) cell_l cell_c = JStr ''Not found''
   \<and> (JStr cell_c \<notin> set header \<longrightarrow>
        transformCellResponse (Some (header # rest)) cell_l cell_c = JStr ''Not found'')
   \<and> ((\<forall>row\<in>set rest. array_get row 0 \<noteq> JStr cell_l) \<longrightarrow>
        transformCellResponse (Some (header # rest)) cell_l cell_c = JStr ''Not found'')
   \<and> (JStr cell_c \<notin> set before \<and> (\<forall>r\<in>set skipped. array_get r 0 \<noteq> JStr cell_l)
        \<and> array_get row 0 = JStr cell_l \<longrightarrow>
        transformCellResponse (Some ((before @ JStr cell_c # after) # skipped @ row # remaining))
            cell_l cell_c
          = (if array_get row (length before) = JUndefined
                \<or> array_get row (length before) = JStr ''''
             then JStr ''Not found'' else array_get row (length before)))"
proof (intro conjI impI)
  show "transformCellResponse None cell_l cell_c = JStr ''Not found''"
    by (simp add: transformCellResponse_def)
  show "transformCellResponse (Some []) cell_l cell_c = JStr ''Not found''"
    by (simp add: transformCellResponse_def)
next
  assume "JStr cell_c \<notin> set header"
  then show "transformCellResponse (Some (header # rest)) cell_l cell_c = JStr ''Not found''"
    by (simp add: transformCellResponse_def indexOf_absent)
next
  assume "\<forall>row\<in>set rest. array_get row 0 \<noteq> JStr cell_l"
  then show "transformCellResponse (Some (header # rest)) cell_l cell_c = JStr ''Not found''"
    by (simp add: transformCellResponse_def scan_rows_no_match Let_def)
next
  assume a: "JStr cell_c \<notin> set before \<and> (\<forall>r\<in>set skipped. array_get r 0 \<noteq> JStr cell_l)
        \<and> array_get row 0 = JStr cell_l"
  then have "indexOf (before @ JStr cell_c # after) (JStr cell_c) = int (length before)"
    by (simp add: indexOf_first)
  with a show "transformCellResponse (Some ((before @ JStr cell_c # after) # skipped @ row # remaining))
            cell_l cell_c
          = (if array_get row (length before) = JUndefined
                \<or> array_get row (length before) = JStr ''''
             then JStr ''Not found'' else array_get row (length before))"
    by (simp add: transformCellResponse_def scan_rows_first_match)
qed

theorem point_lookup_cases_witness:
  "transformCellResponse (Some lookup_grid) ''row2'' ''col1'' = JStr ''C''
   \<and> transformCellResponse (Some lookup_grid) ''row2'' ''col2'' = JStr ''Not found''
   \<and> transformCellResponse (Some lookup_grid) ''row3'' ''col1'' = JStr ''Not found''
   \<and> transformCellResponse (Some lookup_grid) ''row9'' ''col1'' = JStr ''Not found''
   \<and> transformCellResponse (Some lookup_grid) ''row1'' ''col9'' = JStr ''Not found''"
  using point_lookup_cases [of "''row2''" "''col1''" "[]" "[]" "[JStr '''']" "[[JStr ''row1'', JStr ''A'', JStr ''B'']]"
           "[JStr ''row2'', JStr ''C'']" "[JStr ''col2'']" "[[JStr ''row3'', JStr '''', JStr ''Not found'']]"]
    point_lookup_cases [of "''row2''" "''col2''" "[]" "[]" "[JStr '''', JStr ''col1'']" "[[JStr ''row1'', JStr ''A'', JStr ''B'']]"
           "[JStr ''row2'', JStr ''C'']" "[]" "[[JStr ''row3'', JStr '''', JStr ''Not found'']]"]
    point_lookup_cases [of "''row3''" "''col1''" "[]" "[]" "[JStr '''']" "[[JStr ''row1'', JStr ''A'', JStr ''B''], [JStr ''row2'', JStr ''C'']]"
           "[JStr ''row3'', JStr '''', JStr ''Not found'']" "[JStr ''col2'']" "[]"]
    point_lookup_cases [of "''row9''" "''col1''" "hd lookup_grid" "tl lookup_grid"]
    point_lookup_cases [of "''row1''" "''col9''" "hd lookup_grid" "tl lookup_grid"]
  by (simp add: lookup_grid_def array_get_def)

text \<open>
  C9 as it is written fails in its ``exactly when'': a cell that holds the text
  \<^verbatim>\<open>Not found\<close> is returned as the cell's value, which is the sentinel, although the
  column label is in row 0, a row starts with the row label and the cell is neither
  absent nor empty.
\<close>

theorem point_lookup_sentinel_counterexample:
  "transformCellResponse (Some lookup_grid) ''row3'' ''col2'' = JStr ''Not found''
   \<and> JStr ''col2'' \<in> set (lookup_grid ! 0)
   \<and> array_get (lookup_grid ! 3) 0 = JStr ''row3''
   \<and> array_get (lookup_grid ! 1) 0 \<noteq> JStr ''row3'' \<and> array_get (lookup_grid ! 2) 0 \<noteq> JStr ''row3''
   \<and> array_get (lookup_grid ! 3) 2 \<noteq> JUndefined \<and> array_get (lookup_grid ! 3) 2 \<noteq> JStr ''''"
  by (simp add: lookup_grid_def transformCellResponse_def array_get_def)

section \<open>The decoder writes to nothing the caller holds\<close>

lemma extends_refl: "extends h h"
  by (simp add: extends_def)

lemma extends_length: "extends h0 h \<Longrightarrow> length h0 \<le> length h"
proof -
  assume "extends h0 h"
  then have "length (take (length h0) h) = length h0" by (simp add: extends_def)
  then show ?thesis by simp
qed

lemma extends_trans: "extends h0 h1 \<Longrightarrow> extends h1 h2 \<Longrightarrow> extends h0 h2"
proof -
  assume a: "extends h0 h1" "extends h1 h2"
  then have "take (length h0) h2 = take (length h0) (take (length h1) h2)"
    by (simp add: extends_length min_absorb1)
  with a show ?thesis by (simp add: extends_def)
qed

lemma extends_append: "extends h0 h \<Longrightarrow> extends h0 (h @ zs)"
proof -
  assume a: "extends h0 h"
  then have "length h0 \<le> length h" by (rule extends_length)
  with a show ?thesis by (simp add: extends_def)
qed

lemma andThenE:
  assumes "andThen m f h = Some (r, h')"
  obtains (throws) e where "m h = Some (Inl e, h')" "r = Inl e"
        | (returns) x h1 where "m h = Some (Inr x, h1)" "f x h1 = Some (r, h')"
  using assms by (auto simp: andThen_def split: option.splits sum.splits prod.splits)

lemma extends_update:
  "extends h0 h \<Longrightarrow> length h0 \<le> a \<Longrightarrow> extends h0 (h[a := ob])"
  by (simp add: extends_def)

lemma extends_nth: "extends h0 h \<Longrightarrow> a < length h0 \<Longrightarrow> h ! a = h0 ! a"
proof -
  assume a: "extends h0 h" "a < length h0"
  then have "take (length h0) h ! a = h ! a" by simp
  with a(1) show ?thesis by (simp add: extends_def)
qed

lemma read_array_extends:
  "extends h0 h \<Longrightarrow> read_array h0 v = Some xs \<Longrightarrow> read_array h v = Some xs"
  using extends_length [of h0 h]
  by (auto simp: read_array_def extends_nth split: hval.splits if_splits hobj.splits)

lemma owned_write:
  assumes "extends h0 h" "owned h0 v" "read_array h v = Some xs"
  shows "extends h0 (write_ref v ob h)"
proof -
  from assms(3) obtain a where v: "v = HRef a" and a: "a < length h"
    by (auto simp: read_array_def split: hval.splits if_splits)
  have "length h0 \<le> a"
  proof (rule ccontr)
    assume "\<not> length h0 \<le> a"
    then have "a < length h0" by simp
    with assms(1,3) v have "read_array h0 v = Some xs"
      by (auto simp: read_array_def extends_nth split: hobj.splits if_splits)
    with assms(2) show False by (simp add: owned_def)
  qed
  with assms(1) v show ?thesis by (simp add: write_ref_def extends_update)
qed

lemma fresh_write: "extends h0 h \<Longrightarrow> fresh h0 v \<Longrightarrow> extends h0 (write_ref v ob h)"
  by (auto simp: fresh_def write_ref_def extends_update split: hval.splits)

lemma fresh_owned: "fresh h0 v \<Longrightarrow> owned h0 v"
  by (auto simp: fresh_def owned_def read_array_def split: hval.splits)

lemma arr_shift_frame:
  "extends h0 h \<Longrightarrow> owned h0 v \<Longrightarrow> arr_shift v h = Some (r, h') \<Longrightarrow> extends h0 h'"
  by (auto simp: arr_shift_def owned_write split: option.splits list.splits)

lemma arr_push_frame:
  "extends h0 h \<Longrightarrow> owned h0 v \<Longrightarrow> arr_push v x h = Some (r, h') \<Longrightarrow> extends h0 h'"
  by (auto simp: arr_push_def owned_write split: option.splits)

lemma arr_unshift_frame:
  "extends h0 h \<Longrightarrow> owned h0 v \<Longrightarrow> arr_unshift v x h = Some (r, h') \<Longrightarrow> extends h0 h'"
  by (auto simp: arr_unshift_def owned_write split: option.splits)

lemma obj_set_frame:
  "extends h0 h \<Longrightarrow> fresh h0 v \<Longrightarrow> obj_set v k x h = Some (r, h') \<Longrightarrow> extends h0 h'"
  by (auto simp: obj_set_def fresh_write split: option.splits)

lemma new_array_frame:
  "extends h0 h \<Longrightarrow> new_array xs h = Some (r, h') \<Longrightarrow>
   extends h0 h' \<and> (\<exists>v. r = Inr v \<and> fresh h0 v)"
  by (auto simp: new_array_def fresh_def extends_append dest: extends_length)

lemma new_object_frame:
  "extends h0 h \<Longrightarrow> new_object ps h = Some (r, h') \<Longrightarrow>
   extends h0 h' \<and> (\<exists>v. r = Inr v \<and> fresh h0 v)"
  by (auto simp: new_object_def fresh_def extends_append dest: extends_length)

lemma for_of_frame:
  assumes "\<And>x h r h'. x \<in> set xs \<Longrightarrow> extends h0 h \<Longrightarrow> body x h = Some (r, h') \<Longrightarrow> extends h0 h'"
      and "extends h0 h" and "for_of xs body h = Some (r, h')"
  shows "extends h0 h'"
  using assms
proof (induction xs arbitrary: h)
  case Nil
  then show ?case by (simp add: ret_def)
next
  case (Cons x xs)
  from Cons.prems(3) have "andThen (body x) (\<lambda>_. for_of xs body) h = Some (r, h')" by simp
  then show ?case
  proof (cases rule: andThenE)
    case (throws e)
    with Cons.prems(1,2) show ?thesis by (meson list.set_intros(1))
  next
    case (returns u h1)
    with Cons.prems(1,2) have "extends h0 h1" by (meson list.set_intros(1))
    with Cons.IH [of h1] Cons.prems(1) returns(2) show ?thesis by (meson list.set_intros(2))
  qed
qed

lemma for_of_invariant:
  assumes "\<And>x h r h'. x \<in> set xs \<Longrightarrow> I h \<Longrightarrow> body x h = Some (r, h') \<Longrightarrow> I h'"
      and "I h" and "for_of xs body h = Some (r, h')"
  shows "I h'"
  using assms
proof (induction xs arbitrary: h)
  case Nil
  then show ?case by (simp add: ret_def)
next
  case (Cons x xs)
  from Cons.prems(3) have "andThen (body x) (\<lambda>_. for_of xs body) h = Some (r, h')" by simp
  then show ?case
  proof (cases rule: andThenE)
    case (throws e)
    with Cons.prems(1,2) show ?thesis by (meson list.set_intros(1))
  next
    case (returns u h1)
    with Cons.prems(1,2) have "I h1" by (meson list.set_intros(1))
    with Cons.IH [of h1] Cons.prems(1) returns(2) show ?thesis by (meson list.set_intros(2))
  qed
qed

lemma read_array_append: "read_array h v = Some xs \<Longrightarrow> read_array (h @ zs) v = Some xs"
  by (auto simp: read_array_def nth_append split: hval.splits if_splits hobj.splits)

lemma read_array_written:
  "read_array h v = Some xs \<Longrightarrow> read_array (write_ref v (HArr ys) h) v = Some ys"
  by (auto simp: read_array_def write_ref_def split: hval.splits if_splits hobj.splits)

lemma owned_extends: "extends h0 h \<Longrightarrow> read_array h v = None \<Longrightarrow> owned h0 v"
  unfolding owned_def by (cases "read_array h0 v") (auto dest: read_array_extends)

text \<open>What one round of the copy loop keeps.\<close>

lemma copy_row_invariant:
  assumes res_owned: "owned h0 result"
      and "extends h0 h \<and> (\<exists>acc. read_array h result = Some acc \<and> list_all (owned h0) acc)"
      and "copy_row result row h = Some (r, h')"
  shows "extends h0 h' \<and> (\<exists>acc. read_array h' result = Some acc \<and> list_all (owned h0) acc)"
proof -
  from assms(2) obtain acc where ext: "extends h0 h" and acc: "read_array h result = Some acc"
    "list_all (owned h0) acc" by blast
  from ext have len: "length h0 \<le> length h" by (rule extends_length)
  show ?thesis
  proof (cases "read_array h row")
    case None
    with assms(3) acc(1) have h': "h' = write_ref result (HArr (acc @ [row])) h"
      by (simp add: copy_row_def arr_push_def)
    have "owned h0 row" using ext None by (rule owned_extends)
    moreover have "read_array h' result = Some (acc @ [row])"
      unfolding h' using acc(1) by (rule read_array_written)
    moreover have "extends h0 h'"
      unfolding h' using ext res_owned acc(1) by (rule owned_write)
    ultimately show ?thesis using acc(2) by simp
  next
    case (Some cells)
    let ?h1 = "h @ [HArr cells]"
    let ?copy = "HRef (length h)"
    have acc1: "read_array ?h1 result = Some acc" using acc(1) by (rule read_array_append)
    with assms(3) Some have h': "h' = write_ref result (HArr (acc @ [?copy])) ?h1"
      by (simp add: copy_row_def arr_push_def andThen_def new_array_def)
    have "owned h0 ?copy" using len by (simp add: owned_def read_array_def)
    moreover have "read_array h' result = Some (acc @ [?copy])"
      unfolding h' using acc1 by (rule read_array_written)
    moreover have "extends h0 h'"
      unfolding h' using extends_append [OF ext] res_owned acc1 by (rule owned_write)
    ultimately show ?thesis using acc(2) by simp
  qed
qed


lemma copy_loop_invariant:
  assumes "owned h0 result"
      and "extends h0 h \<and> (\<exists>acc. read_array h result = Some acc \<and> list_all (owned h0) acc)"
      and "for_of xs (copy_row result) h = Some (r, h')"
  shows "extends h0 h' \<and> (\<exists>acc. read_array h' result = Some acc \<and> list_all (owned h0) acc)"
proof (rule for_of_invariant
    [where I = "\<lambda>h. extends h0 h \<and> (\<exists>acc. read_array h result = Some acc \<and> list_all (owned h0) acc)"
       and xs = xs and body = "copy_row result" and h = h and r = r])
  show "extends h0 h \<and> (\<exists>acc. read_array h result = Some acc \<and> list_all (owned h0) acc)"
    by (rule assms(2))
  show "for_of xs (copy_row result) h = Some (r, h')" by (rule assms(3))
next
  fix x h1 r1 h2
  assume "extends h0 h1 \<and> (\<exists>acc. read_array h1 result = Some acc \<and> list_all (owned h0) acc)"
    and "copy_row result x h1 = Some (r1, h2)"
  with assms(1)
  show "extends h0 h2 \<and> (\<exists>acc. read_array h2 result = Some acc \<and> list_all (owned h0) acc)"
    by (rule copy_row_invariant)
qed

lemma copyValuesArray_h_result:
  assumes "copyValuesArray_h values h = Some (r, h')"
  shows "extends h h' \<and>
         (\<forall>response. r = Inr response \<longrightarrow>
            fresh h response \<and> (\<exists>rows. read_array h' response = Some rows \<and> list_all (owned h) rows))"
proof -
  let ?result = "HRef (length h)"
  let ?h1 = "h @ [HArr []]"
  have fresh: "fresh h ?result" by (simp add: fresh_def)
  then have owned: "owned h ?result" by (rule fresh_owned)
  have inv1: "extends h ?h1 \<and> (\<exists>acc. read_array ?h1 ?result = Some acc \<and> list_all (owned h) acc)"
    by (simp add: extends_append extends_refl read_array_def)
  from assms have loop:
    "andThen (for_of_value values (copy_row ?result)) (\<lambda>_. ret ?result) ?h1 = Some (r, h')"
    by (simp add: copyValuesArray_h_def andThen_def new_array_def)
  show ?thesis
  proof (cases "iterate ?h1 values")
    case None
    with loop have "h' = ?h1" "r = Inl TypeError"
      by (simp_all add: andThen_def for_of_value_def throw_def)
    with inv1 show ?thesis by simp
  next
    case (Some xs)
    from loop show ?thesis
    proof (cases rule: andThenE)
      case (throws e)
      with Some have "for_of xs (copy_row ?result) ?h1 = Some (Inl e, h')"
        by (simp add: for_of_value_def)
      with owned inv1 have "extends h h' \<and> (\<exists>acc. read_array h' ?result = Some acc \<and> list_all (owned h) acc)"
        by (rule copy_loop_invariant)
      with throws show ?thesis by simp
    next
      case (returns u h2)
      with Some have "for_of xs (copy_row ?result) ?h1 = Some (Inr u, h2)"
        by (simp add: for_of_value_def)
      with owned inv1 have "extends h h2 \<and> (\<exists>acc. read_array h2 ?result = Some acc \<and> list_all (owned h) acc)"
        by (rule copy_loop_invariant)
      with returns(2) fresh show ?thesis by (auto simp: ret_def)
    qed
  qed
qed

lemma read_array_write_other:
  "w \<noteq> v \<Longrightarrow> read_array (write_ref v ob h) w = read_array h w"
  by (cases v; cases w) (auto simp: read_array_def write_ref_def nth_list_update)

lemma iterate_array: "read_array h v = Some xs \<Longrightarrow> iterate h v = Some xs"
  by (auto simp: iterate_def read_array_def split: hval.splits)

lemma arr_shift_shrinks:
  assumes "arr_shift v h = Some (r, h')" and "read_array h w = Some xs"
  shows "\<exists>ys. read_array h' w = Some ys \<and> set ys \<subseteq> set xs"
proof (cases "read_array h v")
  case None
  with assms show ?thesis by (auto simp: arr_shift_def)
next
  case (Some cells)
  show ?thesis
  proof (cases cells)
    case Nil
    with Some assms show ?thesis by (auto simp: arr_shift_def)
  next
    case (Cons c cs)
    with Some assms(1) have h': "h' = write_ref v (HArr cs) h" by (simp add: arr_shift_def)
    show ?thesis
    proof (cases "w = v")
      case True
      with Some Cons assms(2) have "xs = c # cs" by simp
      moreover have "read_array h' w = Some cs"
        unfolding h' True using Some by (rule read_array_written)
      ultimately show ?thesis by auto
    next
      case False
      then show ?thesis unfolding h' using assms(2) by (simp add: read_array_write_other)
    qed
  qed
qed

lemma arr_shift_owned:
  assumes "arr_shift v h = Some (Inr x, h')" and "read_array h v = Some xs"
      and "list_all (owned h0) xs"
  shows "owned h0 x"
  using assms
  by (cases xs) (auto simp: arr_shift_def owned_def read_array_def)

lemma fill_record_h_frame:
  assumes "extends h0 h" and "fresh h0 newl"
      and "fill_record_h ref_key newl line_labels obj h = Some (r, h')"
  shows "extends h0 h'"
proof (cases "read_array h obj")
  case None
  with assms show ?thesis by (simp add: fill_record_h_def throw_def)
next
  case cells: (Some cells)
  show ?thesis
  proof (cases "cells = []")
    case True
    with cells assms show ?thesis by (simp add: fill_record_h_def ret_def)
  next
    case False
    show ?thesis
    proof (cases "read_array h line_labels")
      case None
      with cells False assms show ?thesis by (simp add: fill_record_h_def throw_def)
    next
      case (Some labels)
      with cells False assms(3) have
        "for_of [0..<length cells]
           (\<lambda>i h'. obj_set newl (key_string ref_key h' (cell_at labels i)) (cell_at cells i) h') h
         = Some (r, h')"
        by (simp add: fill_record_h_def)
      moreover have "extends h0 hb'"
        if "extends h0 hb"
          "obj_set newl (key_string ref_key hb (cell_at labels i)) (cell_at cells i) hb
             = Some (rb, hb')" for i hb rb hb'
        using that(1) assms(2) that(2) by (rule obj_set_frame)
      ultimately show ?thesis
        using assms(1) by (auto elim: for_of_frame [rotated 2])
    qed
  qed
qed

lemma transformWithSingleHeader_h_frame:
  assumes ext: "extends h0 h"
      and rows: "read_array h response = Some rows" "list_all (owned h0) rows"
      and run: "transformWithSingleHeader_h ref_key response h = Some (r, h')"
  shows "extends h0 h'"
proof -
  let ?objet = "HRef (length h)"
  let ?h1 = "h @ [HObj []]"
  let ?body = "\<lambda>obj. andThen (arr_shift obj)
                 (\<lambda>label h. obj_set ?objet (key_string ref_key h label) obj h)"
  have objet: "fresh h0 ?objet" using extends_length [OF ext] by (simp add: fresh_def)
  have ext1: "extends h0 ?h1" using ext by (rule extends_append)
  have "iterate ?h1 response = Some rows"
    using rows(1) by (intro iterate_array read_array_append)
  with run have loop: "andThen (for_of rows ?body) (\<lambda>_. ret ?objet) ?h1 = Some (r, h')"
    by (simp add: transformWithSingleHeader_h_def andThen_def new_object_def for_of_value_def)
  have body: "extends h0 hb'"
    if "obj \<in> set rows" "extends h0 hb" "?body obj hb = Some (rb, hb')" for obj hb rb hb'
  proof -
    from that(1) rows(2) have own: "owned h0 obj" by (simp add: list_all_iff)
    from that(3) show ?thesis
    proof (cases rule: andThenE)
      case (throws e)
      with that(2) own show ?thesis by (auto dest: arr_shift_frame)
    next
      case (returns label h1)
      with that(2) own have "extends h0 h1" by (auto dest: arr_shift_frame)
      with returns(2) objet show ?thesis by (auto dest: obj_set_frame)
    qed
  qed
  from loop show ?thesis
  proof (cases rule: andThenE)
    case (throws e)
    from body ext1 throws(1) show ?thesis by (rule for_of_frame)
  next
    case (returns u h2)
    from body ext1 returns(1) have "extends h0 h2" by (rule for_of_frame)
    with returns(2) show ?thesis by (simp add: ret_def)
  qed
qed

lemma transformToObjectArray_h_frame:
  assumes ext: "extends h0 h"
      and resp: "owned h0 response"
      and run: "transformToObjectArray_h ref_key response h = Some (r, h')"
  shows "extends h0 h'"
proof -
  let ?array = "HRef (length h)"
  let ?h1 = "h @ [HArr []]"
  have array: "owned h0 ?array"
    using extends_length [OF ext] by (simp add: owned_def read_array_def)
  have ext1: "extends h0 ?h1" using ext by (rule extends_append)
  from run have run1:
    "andThen (arr_shift response) (\<lambda>line_labels.
       andThen (for_of_value response (\<lambda>obj.
                  andThen (new_object []) (\<lambda>newl.
                  andThen (fill_record_h ref_key newl line_labels obj) (\<lambda>_.
                  arr_push ?array newl))))
         (\<lambda>_. ret ?array)) ?h1 = Some (r, h')"
    by (simp add: transformToObjectArray_h_def andThen_def new_array_def)
  have body: "extends h0 hb'"
    if "extends h0 hb"
      "andThen (new_object []) (\<lambda>newl.
         andThen (fill_record_h ref_key newl line_labels obj) (\<lambda>_. arr_push ?array newl)) hb
       = Some (rb, hb')" for line_labels obj hb rb hb'
    using that(2)
  proof (cases rule: andThenE)
    case (throws e)
    then show ?thesis by (simp add: new_object_def)
  next
    case (returns newl h1)
    with that(1) have e1: "extends h0 h1" and newl: "fresh h0 newl"
      using new_object_frame by blast+
    from returns(2) show ?thesis
    proof (cases rule: andThenE)
      case (throws e)
      with e1 newl show ?thesis by (auto dest: fill_record_h_frame)
    next
      case (returns u h2)
      with e1 newl have "extends h0 h2" by (auto dest: fill_record_h_frame)
      with returns(2) array show ?thesis by (auto dest: arr_push_frame)
    qed
  qed
  from run1 show ?thesis
  proof (cases rule: andThenE)
    case (throws e)
    with ext1 resp show ?thesis by (auto dest: arr_shift_frame)
  next
    case (returns line_labels h2)
    with ext1 resp have e2: "extends h0 h2" by (auto dest: arr_shift_frame)
    from returns(2) show ?thesis
    proof (cases rule: andThenE)
      case (throws e)
      show ?thesis
      proof (cases "iterate h2 response")
        case None
        with throws e2 show ?thesis by (simp add: for_of_value_def throw_def)
      next
        case (Some xs)
        with throws have "for_of xs (\<lambda>obj.
                  andThen (new_object []) (\<lambda>newl.
                  andThen (fill_record_h ref_key newl line_labels obj) (\<lambda>_.
                  arr_push ?array newl))) h2 = Some (Inl e, h')"
          by (simp add: for_of_value_def)
        with e2 show ?thesis by (auto elim: for_of_frame [rotated 2] intro: body)
      qed
    next
      case (returns u h3)
      have "extends h0 h3"
      proof (cases "iterate h2 response")
        case None
        with returns(1) e2 show ?thesis by (simp add: for_of_value_def throw_def)
      next
        case (Some xs)
        with returns(1) have "for_of xs (\<lambda>obj.
                  andThen (new_object []) (\<lambda>newl.
                  andThen (fill_record_h ref_key newl line_labels obj) (\<lambda>_.
                  arr_push ?array newl))) h2 = Some (Inr u, h3)"
          by (simp add: for_of_value_def)
        with e2 show ?thesis by (auto elim: for_of_frame [rotated 2] intro: body)
      qed
      with returns(2) show ?thesis by (simp add: ret_def)
    qed
  qed
qed

lemma for_of_value_frame:
  assumes "for_of_value v body h = Some (r, h')" and "extends h0 h"
      and "\<And>xs x hb rb hb'. iterate h v = Some xs \<Longrightarrow> x \<in> set xs \<Longrightarrow> extends h0 hb \<Longrightarrow>
             body x hb = Some (rb, hb') \<Longrightarrow> extends h0 hb'"
  shows "extends h0 h'"
proof (cases "iterate h v")
  case None
  with assms(1,2) show ?thesis by (simp add: for_of_value_def throw_def)
next
  case (Some xs)
  with assms(1) have "for_of xs body h = Some (r, h')" by (simp add: for_of_value_def)
  with assms(3) [OF Some] assms(2) show ?thesis by (rule for_of_frame)
qed

lemma andThen_frame:
  assumes "andThen m f h = Some (r, h')"
      and "\<And>r1 h1. m h = Some (r1, h1) \<Longrightarrow> extends h0 h1"
      and "\<And>x h1. m h = Some (Inr x, h1) \<Longrightarrow> extends h0 h1 \<Longrightarrow> f x h1 = Some (r, h') \<Longrightarrow>
             extends h0 h'"
  shows "extends h0 h'"
  using assms(1)
proof (cases rule: andThenE)
  case (throws e)
  then show ?thesis using assms(2) by blast
next
  case (returns x h1)
  then show ?thesis using assms(2,3) by blast
qed

lemma transformWithBothHeaders_h_frame:
  assumes ext: "extends h0 h"
      and resp: "owned h0 response"
      and rows: "read_array h response = Some rows" "list_all (owned h0) rows"
      and run: "transformWithBothHeaders_h ref_key response h = Some (r, h')"
  shows "extends h0 h'"
proof -
  let ?objet = "HRef (length h)"
  let ?h1 = "h @ [HObj []]"
  let ?body = "\<lambda>line_labels obj.
                andThen (new_object []) (\<lambda>newl.
                andThen (arr_shift obj) (\<lambda>item.
                andThen (fill_record_h ref_key newl line_labels obj) (\<lambda>_.
                (\<lambda>h. obj_set ?objet (key_string ref_key h item) newl h))))"
  have objet: "fresh h0 ?objet" using extends_length [OF ext] by (simp add: fresh_def)
  have ext1: "extends h0 ?h1" using ext by (rule extends_append)
  have rows1: "read_array ?h1 response = Some rows" using rows(1) by (rule read_array_append)
  from run have run1:
    "andThen (arr_shift response) (\<lambda>line_labels.
     andThen (arr_shift line_labels) (\<lambda>_.
     andThen (for_of_value response (?body line_labels))
       (\<lambda>_. ret ?objet))) ?h1 = Some (r, h')"
    by (simp add: transformWithBothHeaders_h_def andThen_def new_object_def)
  have body: "extends h0 hb'"
    if ob: "owned h0 obj" and eb: "extends h0 hb"
      and runb: "?body line_labels obj hb = Some (rb, hb')"
    for line_labels obj hb rb hb'
    using runb
  proof (rule andThen_frame)
    show "extends h0 h1" if "new_object [] hb = Some (r1, h1)" for r1 h1
      using new_object_frame [OF eb that] by blast
  next
    fix newl h1
    assume n: "new_object [] hb = Some (Inr newl, h1)" and e1: "extends h0 h1"
      and rest: "andThen (arr_shift obj) (\<lambda>item.
                andThen (fill_record_h ref_key newl line_labels obj) (\<lambda>_.
                (\<lambda>h. obj_set ?objet (key_string ref_key h item) newl h))) h1 = Some (rb, hb')"
    from new_object_frame [OF eb n] have newl: "fresh h0 newl" by simp
    from rest show "extends h0 hb'"
    proof (rule andThen_frame)
      show "extends h0 h2" if "arr_shift obj h1 = Some (r2, h2)" for r2 h2
        using e1 ob that by (rule arr_shift_frame)
    next
      fix item h2
      assume e2: "extends h0 h2"
        and rest2: "andThen (fill_record_h ref_key newl line_labels obj) (\<lambda>_.
                (\<lambda>h. obj_set ?objet (key_string ref_key h item) newl h)) h2 = Some (rb, hb')"
      from rest2 show "extends h0 hb'"
      proof (rule andThen_frame)
        show "extends h0 h3" if "fill_record_h ref_key newl line_labels obj h2 = Some (r3, h3)"
          for r3 h3 using e2 newl that by (rule fill_record_h_frame)
      next
        fix u h3
        assume "extends h0 h3"
          and "obj_set ?objet (key_string ref_key h3 item) newl h3 = Some (rb, hb')"
        with objet show "extends h0 hb'" by (auto dest: obj_set_frame)
      qed
    qed
  qed
  from run1 show ?thesis
  proof (rule andThen_frame)
    show "extends h0 h2" if "arr_shift response ?h1 = Some (r2, h2)" for r2 h2
      using ext1 resp that by (rule arr_shift_frame)
  next
    fix line_labels h2
    assume s1: "arr_shift response ?h1 = Some (Inr line_labels, h2)" and e2: "extends h0 h2"
      and rest: "andThen (arr_shift line_labels) (\<lambda>_.
                   andThen (for_of_value response (?body line_labels))
                     (\<lambda>_. ret ?objet)) h2 = Some (r, h')"
    from s1 rows1 rows(2) have ll: "owned h0 line_labels" by (rule arr_shift_owned)
    from arr_shift_shrinks [OF s1 rows1] obtain ys where
      ys: "read_array h2 response = Some ys" "set ys \<subseteq> set rows" by blast
    from rest show "extends h0 h'"
    proof (rule andThen_frame)
      show "extends h0 h3" if "arr_shift line_labels h2 = Some (r3, h3)" for r3 h3
        using e2 ll that by (rule arr_shift_frame)
    next
      fix u h3
      assume s2: "arr_shift line_labels h2 = Some (Inr u, h3)" and e3: "extends h0 h3"
        and rest2: "andThen (for_of_value response (?body line_labels))
                     (\<lambda>_. ret ?objet) h3 = Some (r, h')"
      from arr_shift_shrinks [OF s2 ys(1)] obtain zs where
        zs: "read_array h3 response = Some zs" "set zs \<subseteq> set ys" by blast
      then have it: "iterate h3 response = Some zs" by (simp add: iterate_array)
      from rest2 show "extends h0 h'"
      proof (rule andThen_frame)
        fix r4 h4
        assume "for_of_value response (?body line_labels) h3 = Some (r4, h4)"
        then show "extends h0 h4" using e3
        proof (rule for_of_value_frame)
          fix xs x hb rb hb'
          assume "iterate h3 response = Some xs" "x \<in> set xs" "extends h0 hb"
            "?body line_labels x hb = Some (rb, hb')"
          moreover from this(1,2) it zs(2) ys(2) rows(2) have "owned h0 x"
            by (auto simp: list_all_iff)
          ultimately show "extends h0 hb'" using body by blast
        qed
      next
        fix u4 h4
        assume "extends h0 h4" "ret ?objet h4 = Some (r, h')"
        then show "extends h0 h'" by (simp add: ret_def)
      qed
    qed
  qed
qed

lemma andThen_total:
  assumes "halts m h" and "\<And>x h1. halts (f x) h1"
  shows "halts (andThen m f) h"
proof (cases "m h")
  case None
  with assms(1) show ?thesis by (simp add: halts_def)
next
  case (Some p)
  obtain r h1 where p: "p = (r, h1)" by (cases p)
  show ?thesis
  proof (cases r)
    case (Inl e)
    with Some p show ?thesis by (simp add: halts_def andThen_def)
  next
    case (Inr x)
    with Some p assms(2) [of x h1] show ?thesis by (simp add: halts_def andThen_def)
  qed
qed

lemma for_of_total:
  assumes "\<And>x h. halts (body x) h"
  shows "halts (for_of xs body) h"
proof (induction xs arbitrary: h)
  case Nil
  show ?case by (simp add: halts_def ret_def)
next
  case (Cons x xs)
  show ?case unfolding for_of.simps by (rule andThen_total) (rule assms, rule Cons.IH)
qed

lemma for_of_value_total:
  assumes "\<And>x h. halts (body x) h"
  shows "halts (for_of_value v body) h"
proof (cases "iterate h v")
  case None
  then show ?thesis by (simp add: halts_def for_of_value_def throw_def)
next
  case (Some xs)
  with for_of_total [of body xs h, OF assms] show ?thesis
    by (simp add: halts_def for_of_value_def)
qed

lemma primitives_total:
  "halts (ret x) h" "halts (throw e) h" "halts (new_array xs) h" "halts (new_object ps) h"
  "halts (arr_push v y) h" "halts (arr_unshift v y) h" "halts (arr_shift v) h"
  "halts (obj_set v k y) h"
  by (simp_all add: halts_def ret_def throw_def new_array_def new_object_def arr_push_def
      arr_unshift_def arr_shift_def obj_set_def split: option.splits list.splits)

lemma fill_record_h_total: "halts (fill_record_h ref_key newl line_labels obj) h"
proof -
  have "halts (for_of xs (\<lambda>i h'. obj_set newl (key_string ref_key h' (cell_at labels i))
                                  (cell_at cells i) h')) h" for xs labels cells
    by (rule for_of_total) (simp add: halts_def obj_set_def split: option.splits)
  then show ?thesis
    by (simp add: halts_def fill_record_h_def ret_def throw_def split: option.splits)
qed

lemma copy_row_total: "halts (copy_row result row) h"
proof (cases "read_array h row")
  case None
  with primitives_total(5) [of result row h] show ?thesis by (simp add: halts_def copy_row_def)
next
  case (Some xs)
  have "halts (andThen (new_array xs) (\<lambda>copy. arr_push result copy)) h"
    by (rule andThen_total) (rule primitives_total)+
  with Some show ?thesis by (simp add: halts_def copy_row_def)
qed

lemma copyValuesArray_h_total: "halts (copyValuesArray_h values) h"
  unfolding copyValuesArray_h_def
  by (intro andThen_total for_of_value_total primitives_total copy_row_total)

lemma obj_set_key_total: "halts (\<lambda>h. obj_set v (k h) y h) h"
  by (simp add: halts_def obj_set_def split: option.splits)

lemma decoders_total:
  "halts (transformWithBothHeaders_h ref_key response) h"
  "halts (transformWithSingleHeader_h ref_key response) h"
  "halts (transformToObjectArray_h ref_key response) h"
  unfolding transformWithBothHeaders_h_def transformWithSingleHeader_h_def
    transformToObjectArray_h_def
  by (intro andThen_total for_of_value_total primitives_total fill_record_h_total
      obj_set_key_total)+

lemma unwrap_single_total: "halts (unwrap_single response) h"
  by (simp add: halts_def unwrap_single_def ret_def throw_def split: option.splits list.splits)

lemma transformGetResponse_h_total:
  "halts (transformGetResponse_h ref_key values config majorDimension) h"
  unfolding transformGetResponse_h_def
  by (intro andThen_total copyValuesArray_h_total)
     (simp add: decoders_total unwrap_single_total)

lemma unwrap_single_frame:
  "unwrap_single response h = Some (r, h') \<Longrightarrow> h' = h"
  by (auto simp: unwrap_single_def ret_def throw_def split: option.splits list.splits if_splits)

lemma transformGetResponse_h_frame:
  assumes "transformGetResponse_h ref_key values config majorDimension h = Some (r, h')"
  shows "extends h h'"
  using assms unfolding transformGetResponse_h_def
proof (cases rule: andThenE)
  case (throws e)
  then show ?thesis using copyValuesArray_h_result by blast
next
  case (returns response h1)
  from copyValuesArray_h_result [OF returns(1)] obtain rows where
    c: "extends h h1" "fresh h response" "read_array h1 response = Some rows"
       "list_all (owned h) rows" by blast
  from c(2) have own: "owned h response" by (rule fresh_owned)
  consider (none) "\<not> line config \<and> \<not> column config"
    | (both) "line config \<and> column config"
    | (single) "\<not> (\<not> line config \<and> \<not> column config)" "\<not> (line config \<and> column config)"
        "(column config
           \<and> (majorDimension = JStr ''COLUMNS'' \<or> direction config = JStr ''column''))
         \<or> (line config
           \<and> (majorDimension = JStr ''ROWS'' \<or> direction config = JStr ''line''))"
    | (mismatch) "\<not> (\<not> line config \<and> \<not> column config)" "\<not> (line config \<and> column config)"
        "\<not> ((column config
           \<and> (majorDimension = JStr ''COLUMNS'' \<or> direction config = JStr ''column''))
         \<or> (line config
           \<and> (majorDimension = JStr ''ROWS'' \<or> direction config = JStr ''line'')))"
    by blast
  then show ?thesis
  proof cases
    case none
    with returns(2) have "unwrap_single response h1 = Some (r, h')" by simp
    with c(1) show ?thesis by (auto dest: unwrap_single_frame)
  next
    case both
    with returns(2) have "transformWithBothHeaders_h ref_key response h1 = Some (r, h')" by simp
    with c(1) own c(3,4) show ?thesis by (rule transformWithBothHeaders_h_frame)
  next
    case single
    with returns(2) have "transformWithSingleHeader_h ref_key response h1 = Some (r, h')"
      by simp
    with c(1,3,4) show ?thesis by (rule transformWithSingleHeader_h_frame)
  next
    case mismatch
    with returns(2) have "transformToObjectArray_h ref_key response h1 = Some (r, h')"
      by simp
    with c(1) own show ?thesis by (rule transformToObjectArray_h_frame)
  qed
qed

text \<open>On a grid every row is copied, so every row of the copy is a new array.\<close>

lemma copy_loop_grid:
  assumes "extends h0 h" and "\<forall>row\<in>set xs. read_array h0 row \<noteq> None"
      and "read_array h result = Some acc" and "list_all (fresh h0) acc"
      and "fresh h0 result"
  shows "\<exists>h' acc'. for_of xs (copy_row result) h = Some (Inr (), h') \<and> extends h0 h'
           \<and> read_array h' result = Some acc' \<and> list_all (fresh h0) acc'"
  using assms(1-4)
proof (induction xs arbitrary: h acc)
  case Nil
  then show ?case by (simp add: ret_def)
next
  case (Cons row xs)
  from Cons.prems(2) obtain cells0 where "read_array h0 row = Some cells0" by auto
  with Cons.prems(1) have cells: "read_array h row = Some cells0" by (rule read_array_extends)
  let ?h1 = "h @ [HArr cells0]"
  let ?copy = "HRef (length h)"
  let ?h2 = "write_ref result (HArr (acc @ [?copy])) ?h1"
  have acc1: "read_array ?h1 result = Some acc" using Cons.prems(3) by (rule read_array_append)
  with cells have step: "copy_row result row h = Some (Inr (), ?h2)"
    by (simp add: copy_row_def andThen_def new_array_def arr_push_def)
  have e2: "extends h0 ?h2"
    using extends_append [OF Cons.prems(1)] assms(5) by (rule fresh_write)
  have r2: "read_array ?h2 result = Some (acc @ [?copy])"
    using acc1 by (rule read_array_written)
  have "fresh h0 ?copy" using extends_length [OF Cons.prems(1)] by (simp add: fresh_def)
  with Cons.prems(4) have f2: "list_all (fresh h0) (acc @ [?copy])" by simp
  from Cons.prems(2) have "\<forall>row\<in>set xs. read_array h0 row \<noteq> None" by simp
  from Cons.IH [OF e2 this r2 f2] obtain h' acc' where
    "for_of xs (copy_row result) ?h2 = Some (Inr (), h')" "extends h0 h'"
    "read_array h' result = Some acc'" "list_all (fresh h0) acc'" by blast
  with step show ?case by (simp add: andThen_def)
qed

lemma copyValuesArray_h_grid:
  assumes "is_grid h grid"
  shows "\<exists>response h1 rows. copyValuesArray_h grid h = Some (Inr response, h1)
           \<and> fresh h response \<and> read_array h1 response = Some rows \<and> list_all (fresh h) rows"
proof -
  let ?result = "HRef (length h)"
  let ?h1 = "h @ [HArr []]"
  from assms obtain xs where xs: "read_array h grid = Some xs"
    "\<forall>row\<in>set xs. read_array h row \<noteq> None"
    by (auto simp: is_grid_def list_all_iff split: option.splits)
  then have it: "iterate ?h1 grid = Some xs"
    by (intro iterate_array read_array_append)
  have fr: "fresh h ?result" by (simp add: fresh_def)
  have "extends h ?h1" by (simp add: extends_append extends_refl)
  moreover have "read_array ?h1 ?result = Some []" by (simp add: read_array_def)
  moreover have "list_all (fresh h) []" by simp
  ultimately obtain h' acc' where
    "for_of xs (copy_row ?result) ?h1 = Some (Inr (), h')"
    "read_array h' ?result = Some acc'" "list_all (fresh h) acc'"
    using copy_loop_grid [OF _ xs(2) _ _ fr] by blast
  with it fr show ?thesis
    by (simp add: copyValuesArray_h_def andThen_def new_array_def for_of_value_def ret_def)
qed


text \<open>
  C6.  For every grid in the store (a reference to an array all of whose elements refer to
  arrays), every header configuration and every major dimension: the copy that decoding
  starts with is a new outer array all of whose rows are new arrays; and the decoder comes
  back, with a value or a thrown error, leaving a store that begins with the store it was
  given.  So every array the caller had, the grid's outer array and each of its rows among
  them, still has the elements it had: the same rows, the same row lengths, the same
  cells.
\<close>

theorem decode_leaves_grid_unchanged:
  assumes "is_grid h grid"
  shows "(\<exists>response h1 rows. copyValuesArray_h grid h = Some (Inr response, h1)
           \<and> fresh h response \<and> read_array h1 response = Some rows \<and> list_all (fresh h) rows)
       \<and> (\<exists>r h'. transformGetResponse_h ref_key grid config majorDimension h = Some (r, h')
           \<and> extends h h'
           \<and> (\<forall>v xs. read_array h v = Some xs \<longrightarrow> read_array h' v = Some xs))"
proof
  show "\<exists>response h1 rows. copyValuesArray_h grid h = Some (Inr response, h1)
           \<and> fresh h response \<and> read_array h1 response = Some rows \<and> list_all (fresh h) rows"
    using assms by (rule copyValuesArray_h_grid)
  from transformGetResponse_h_total [of ref_key grid config majorDimension h]
  obtain r h' where run: "transformGetResponse_h ref_key grid config majorDimension h = Some (r, h')"
    by (auto simp: halts_def)
  then have "extends h h'" by (rule transformGetResponse_h_frame)
  with run show "\<exists>r h'. transformGetResponse_h ref_key grid config majorDimension h = Some (r, h')
           \<and> extends h h'
           \<and> (\<forall>v xs. read_array h v = Some xs \<longrightarrow> read_array h' v = Some xs)"
    by (auto intro: read_array_extends)
qed

text \<open>C6 at the example grid, held at addresses 0 to 3.\<close>

theorem decode_leaves_grid_unchanged_witness:
  "is_grid people_store (HRef 0)
   \<and> (\<exists>r h'. transformGetResponse_h (\<lambda>h a. ''[object Object]'') (HRef 0)
                  (line_header_config\<lparr>column := True\<rparr>) (JStr ''ROWS'') people_store
                = Some (r, h')
          \<and> extends people_store h'
          \<and> read_array h' (HRef 0) = Some [HRef 1, HRef 2, HRef 3]
          \<and> read_array h' (HRef 1) = Some [HStr ''name'', HStr ''age''])"
proof -
  have g: "is_grid people_store (HRef 0)" by code_simp
  have "read_array people_store (HRef 0) = Some [HRef 1, HRef 2, HRef 3]"
    "read_array people_store (HRef 1) = Some [HStr ''name'', HStr ''age'']"
    by code_simp+
  with decode_leaves_grid_unchanged
         [OF g, of "\<lambda>h a. ''[object Object]''" "line_header_config\<lparr>column := True\<rparr>" "JStr ''ROWS''"]
    g
  show ?thesis by blast
qed

section \<open>What the encoder's result shares with its input\<close>

lemma fresh_extends: "extends h0 h \<Longrightarrow> fresh h v \<Longrightarrow> fresh h0 v"
  using extends_length [of h0 h] by (auto simp: fresh_def split: hval.splits)

lemma push_pair_frame:
  assumes "extends h0 h" "owned h0 ks" "owned h0 vs"
      and "andThen (arr_push ks x) (\<lambda>_. arr_push vs y) h = Some (r, h')"
  shows "extends h0 h'"
  using assms(4)
proof (rule andThen_frame)
  show "extends h0 h1" if "arr_push ks x h = Some (r1, h1)" for r1 h1
    using assms(1,2) that by (rule arr_push_frame)
next
  fix u h1
  assume "extends h0 h1" "arr_push vs y h1 = Some (r, h')"
  with assms(3) show "extends h0 h'" by (auto dest: arr_push_frame)
qed

lemma extract_loop_h_cases:
  assumes "extract_loop_h fuel ((key, v) # rest) prefix ks vs h = Some (r, h')"
  obtains
    (nested_throws) fuel' e where "fuel = Suc fuel'"
      "extract_loop_h fuel' (for_in_h h v) (if prefix \<noteq> [] then prefix @ ''.'' @ key else key)
         ks vs h = Some (Inl e, h')"
  | (nested) fuel' h1 where "fuel = Suc fuel'"
      "extract_loop_h fuel' (for_in_h h v) (if prefix \<noteq> [] then prefix @ ''.'' @ key else key)
         ks vs h = Some (Inr (), h1)"
      "extract_loop_h fuel rest prefix ks vs h1 = Some (r, h')"
  | (leaf_throws) e where
      "andThen (arr_push ks (HStr (if prefix \<noteq> [] then prefix @ ''.'' @ key else key)))
         (\<lambda>_. arr_push vs v) h = Some (Inl e, h')"
  | (leaf) h1 where
      "andThen (arr_push ks (HStr (if prefix \<noteq> [] then prefix @ ''.'' @ key else key)))
         (\<lambda>_. arr_push vs v) h = Some (Inr (), h1)"
      "extract_loop_h fuel rest prefix ks vs h1 = Some (r, h')"
  using assms
  by (simp add: Let_def split: if_splits nat.splits option.splits sum.splits prod.splits) blast+

lemma extract_loop_h_frame:
  assumes "owned h0 ks" "owned h0 vs"
  shows "extends h0 h \<Longrightarrow> extract_loop_h fuel es prefix ks vs h = Some (r, h') \<Longrightarrow> extends h0 h'"
proof (induction fuel arbitrary: es prefix h r h')
  case 0
  from "0.prems" show ?case
  proof (induction es arbitrary: h)
    case Nil
    then show ?case by simp
  next
    case (Cons e es)
    obtain key v where e: "e = (key, v)" by (cases e)
    from Cons.prems(2) [unfolded e] show ?case
    proof (cases rule: extract_loop_h_cases)
      case (leaf_throws e)
      with Cons.prems(1) assms show ?thesis by (auto dest: push_pair_frame)
    next
      case (leaf h1)
      with Cons.prems(1) assms have "extends h0 h1" by (auto dest: push_pair_frame)
      with leaf(2) show ?thesis by (rule Cons.IH [rotated])
    qed simp_all
  qed
next
  case (Suc fuel')
  from Suc.prems show ?case
  proof (induction es arbitrary: h)
    case Nil
    then show ?case by simp
  next
    case (Cons e es)
    obtain key v where e: "e = (key, v)" by (cases e)
    from Cons.prems(2) [unfolded e] show ?case
    proof (cases rule: extract_loop_h_cases)
      case (nested_throws f e)
      with Cons.prems(1) show ?thesis using Suc.IH by blast
    next
      case (nested f h1)
      with Cons.prems(1) have "extends h0 h1" using Suc.IH by blast
      with nested(3) show ?thesis by (rule Cons.IH [rotated])
    next
      case (leaf_throws e)
      with Cons.prems(1) assms show ?thesis by (auto dest: push_pair_frame)
    next
      case (leaf h1)
      with Cons.prems(1) assms have "extends h0 h1" by (auto dest: push_pair_frame)
      with leaf(2) show ?thesis by (rule Cons.IH [rotated])
    qed
  qed
qed

lemma extractObjectValues_h_frame:
  assumes "extractObjectValues_h fuel obj h = Some (r, h')"
  shows "extends h h' \<and> (\<forall>ks vs. r = Inr (ks, vs) \<longrightarrow> fresh h ks \<and> fresh h vs)"
proof -
  let ?ks = "HRef (length h)"
  let ?vs = "HRef (length (h @ [HArr []]))"
  let ?h2 = "h @ [HArr [], HArr []]"
  have fr: "fresh h ?ks" "fresh h ?vs" by (simp_all add: fresh_def)
  have e2: "extends h ?h2" by (simp add: extends_append extends_refl)
  from assms have run:
    "andThen (\<lambda>h. extract_loop_h fuel (for_in_h h obj) [] ?ks ?vs h) (\<lambda>_. ret (?ks, ?vs)) ?h2
       = Some (r, h')"
    by (simp add: extractObjectValues_h_def andThen_def new_array_def del: length_append)
  have loop: "extends h h1"
    if "extract_loop_h fuel (for_in_h ?h2 obj) [] ?ks ?vs ?h2 = Some (r1, h1)" for r1 h1
    using fresh_owned [OF fr(1)] fresh_owned [OF fr(2)] e2 that by (rule extract_loop_h_frame)
  from run show ?thesis
  proof (cases rule: andThenE)
    case (throws e)
    with loop show ?thesis by simp
  next
    case (returns u h1)
    with loop fr show ?thesis by (auto simp: ret_def)
  qed
qed

lemma for_of_value_invariant:
  assumes "for_of_value v body h = Some (r, h')" and "I h"
      and "\<And>x hb rb hb'. I hb \<Longrightarrow> body x hb = Some (rb, hb') \<Longrightarrow> I hb'"
  shows "I h'"
proof (cases "iterate h v")
  case None
  with assms(1,2) show ?thesis by (simp add: for_of_value_def throw_def)
next
  case (Some xs)
  with assms(1) have "for_of xs body h = Some (r, h')" by (simp add: for_of_value_def)
  then show ?thesis
    using assms(2,3) by (auto elim: for_of_invariant [rotated 2])
qed

lemma andThen_invariant:
  assumes "andThen m f h = Some (r, h')"
      and "\<And>r1 h1. m h = Some (r1, h1) \<Longrightarrow> I h1"
      and "\<And>x h1. m h = Some (Inr x, h1) \<Longrightarrow> I h1 \<Longrightarrow> f x h1 = Some (r, h') \<Longrightarrow> I h'"
  shows "I h'"
  using assms(1)
proof (cases rule: andThenE)
  case (throws e)
  then show ?thesis using assms(2) by blast
next
  case (returns x h1)
  then show ?thesis using assms(2,3) by blast
qed

lemma builds_new:
  assumes "extends h0 h"
  shows "builds h0 (HRef (length h)) (h @ [HArr []])"
  using assms extends_length [OF assms]
  by (simp add: builds_def extends_append fresh_def read_array_def)

lemma builds_extends:
  assumes "builds h0 V h" "extends h h1"
  shows "builds h0 V h1"
proof -
  from assms(1) obtain acc where "read_array h V = Some acc"
    by (auto simp: builds_def split: option.splits)
  with assms(2) have "read_array h1 V = read_array h V" by (simp add: read_array_extends)
  with assms show ?thesis by (auto simp: builds_def intro: extends_trans)
qed

lemma builds_fresh_now:
  assumes "builds h0 V h" "fresh h x"
  shows "fresh h0 x \<and> x \<noteq> V"
proof -
  from assms(1) have "extends h0 h" by (simp add: builds_def)
  then have "fresh h0 x" using assms(2) by (rule fresh_extends)
  moreover from assms(1) obtain a where "V = HRef a" "a < length h"
    by (auto simp: builds_def read_array_def split: option.splits hval.splits if_splits)
  with assms(2) have "x \<noteq> V" by (auto simp: fresh_def)
  ultimately show ?thesis by simp
qed

lemma builds_push:
  assumes "builds h0 V h" "fresh h0 x \<and> x \<noteq> V" "arr_push V x h = Some (r, h')"
  shows "builds h0 V h'"
proof -
  from assms(1) obtain acc where acc: "read_array h V = Some acc"
    "list_all (\<lambda>x. fresh h0 x \<and> x \<noteq> V) acc" and e: "extends h0 h" and f: "fresh h0 V"
    by (auto simp: builds_def split: option.splits)
  from assms(3) acc(1) have h': "h' = write_ref V (HArr (acc @ [x])) h"
    by (simp add: arr_push_def)
  have "read_array h' V = Some (acc @ [x])" unfolding h' using acc(1) by (rule read_array_written)
  moreover have "extends h0 h'" unfolding h' using e f by (rule fresh_write)
  ultimately show ?thesis using acc(2) assms(2) f by (simp add: builds_def)
qed

lemma builds_unshift:
  assumes "builds h0 V h" "fresh h0 x \<and> x \<noteq> V" "arr_unshift V x h = Some (r, h')"
  shows "builds h0 V h'"
proof -
  from assms(1) obtain acc where acc: "read_array h V = Some acc"
    "list_all (\<lambda>x. fresh h0 x \<and> x \<noteq> V) acc" and e: "extends h0 h" and f: "fresh h0 V"
    by (auto simp: builds_def split: option.splits)
  from assms(3) acc(1) have h': "h' = write_ref V (HArr (x # acc)) h"
    by (simp add: arr_unshift_def)
  have "read_array h' V = Some (x # acc)" unfolding h' using acc(1) by (rule read_array_written)
  moreover have "extends h0 h'" unfolding h' using e f by (rule fresh_write)
  ultimately show ?thesis using acc(2) assms(2) f by (simp add: builds_def)
qed

lemma builds_label:
  assumes "builds h0 V h" "arr_unshift (index_h h V i) l h = Some (r, h')"
  shows "builds h0 V h'"
proof -
  from assms(1) obtain acc where acc: "read_array h V = Some acc"
    "list_all (\<lambda>x. fresh h0 x \<and> x \<noteq> V) acc" and e: "extends h0 h" and f: "fresh h0 V"
    by (auto simp: builds_def split: option.splits)
  let ?row = "index_h h V i"
  show ?thesis
  proof (cases "read_array h ?row")
    case None
    with assms show ?thesis by (simp add: arr_unshift_def)
  next
    case (Some cells)
    with assms(2) have h': "h' = write_ref ?row (HArr (l # cells)) h"
      by (simp add: arr_unshift_def)
    from Some acc(1) have "i < length acc"
      by (auto simp: index_h_def cell_at_def read_array_def split: if_splits)
    with acc have row: "fresh h0 ?row" "?row \<noteq> V"
      by (auto simp: index_h_def cell_at_def list_all_length)
    have "read_array h' V = read_array h V"
      unfolding h' using row(2) by (simp add: read_array_write_other)
    moreover have "extends h0 h'" unfolding h' using e row(1) by (rule fresh_write)
    ultimately show ?thesis using acc f by (simp add: builds_def)
  qed
qed

lemma builds_result:
  "builds h0 V h \<Longrightarrow>
   extends h0 h \<and> fresh h0 V \<and> (\<exists>rows. read_array h V = Some rows \<and> list_all (fresh h0) rows)"
  by (auto simp: builds_def list_all_iff split: option.splits)

lemma select_field_frame:
  "extends hx h \<Longrightarrow> owned hx row \<Longrightarrow> select_field ex row field h = Some (r, h') \<Longrightarrow>
   extends hx h'"
  by (auto simp: select_field_def Let_def ret_def throw_def dest: arr_push_frame
      split: option.splits if_splits)

text \<open>The two loop bodies of the record encoders.\<close>

lemma body_all_builds:
  assumes "builds h0 V hb"
      and "andThen (extractObjectValues_h fuel obj) (\<lambda>extracted. arr_push V (snd extracted)) hb
             = Some (r, hb')"
  shows "builds h0 V hb'"
  using assms(2)
proof (rule andThen_invariant)
  show "builds h0 V h1" if "extractObjectValues_h fuel obj hb = Some (r1, h1)" for r1 h1
    using assms(1) extractObjectValues_h_frame [OF that] by (auto intro: builds_extends)
next
  fix x h1
  assume ex: "extractObjectValues_h fuel obj hb = Some (Inr x, h1)" and b1: "builds h0 V h1"
    and push: "arr_push V (snd x) h1 = Some (r, hb')"
  from extractObjectValues_h_frame [OF ex] have "fresh hb (snd x)" by (cases x) simp
  with assms(1) have "fresh h0 (snd x) \<and> snd x \<noteq> V" by (rule builds_fresh_now)
  with b1 show "builds h0 V hb'" using push by (rule builds_push)
qed

lemma body_selected_builds:
  assumes "builds h0 V hb"
      and "andThen (extractObjectValues_h fuel obj) (\<lambda>extracted.
           andThen (new_array []) (\<lambda>row.
           andThen (for_of_value fieldsArray (select_field extracted row)) (\<lambda>_.
           arr_push V row))) hb = Some (r, hb')"
  shows "builds h0 V hb'"
  using assms(2)
proof (rule andThen_invariant)
  show "builds h0 V h1" if "extractObjectValues_h fuel obj hb = Some (r1, h1)" for r1 h1
    using assms(1) extractObjectValues_h_frame [OF that] by (auto intro: builds_extends)
next
  fix ex h1
  assume x: "extractObjectValues_h fuel obj hb = Some (Inr ex, h1)" and b1: "builds h0 V h1"
    and rest: "andThen (new_array []) (\<lambda>row.
           andThen (for_of_value fieldsArray (select_field ex row)) (\<lambda>_.
           arr_push V row)) h1 = Some (r, hb')"
  let ?row = "HRef (length h1)"
  let ?h2 = "h1 @ [HArr []]"
  have row: "fresh h1 ?row" by (simp add: fresh_def)
  with b1 have row0: "fresh h0 ?row \<and> ?row \<noteq> V" by (rule builds_fresh_now)
  have e12: "extends h1 ?h2" by (simp add: extends_append extends_refl)
  from rest have rest2:
    "andThen (for_of_value fieldsArray (select_field ex ?row)) (\<lambda>_. arr_push V ?row) ?h2
       = Some (r, hb')"
    by (simp add: andThen_def new_array_def)
  have loop: "extends h1 h3"
    if "for_of_value fieldsArray (select_field ex ?row) ?h2 = Some (r3, h3)" for r3 h3
    using that e12
  proof (rule for_of_value_frame)
    fix xs x hc rc hc'
    assume "extends h1 hc" "select_field ex ?row x hc = Some (rc, hc')"
    with fresh_owned [OF row] show "extends h1 hc'" by (auto dest: select_field_frame)
  qed
  from rest2 show "builds h0 V hb'"
  proof (rule andThen_invariant)
    show "builds h0 V h3"
      if "for_of_value fieldsArray (select_field ex ?row) ?h2 = Some (r3, h3)" for r3 h3
      using b1 loop [OF that] by (rule builds_extends)
  next
    fix u h3
    assume "builds h0 V h3" "arr_push V ?row h3 = Some (r, hb')"
    with row0 show "builds h0 V hb'" by (auto dest: builds_push)
  qed
qed

lemma label_rows_h_builds:
  "builds h0 V h \<Longrightarrow> label_rows_h V i ls h = Some (r, h') \<Longrightarrow> builds h0 V h'"
proof (induction ls arbitrary: i h)
  case Nil
  then show ?case by (simp add: ret_def)
next
  case (Cons l ls)
  from Cons.prems(2) have
    "andThen (\<lambda>h. arr_unshift (index_h h V i) (HStr l) h) (\<lambda>_. label_rows_h V (Suc i) ls) h
       = Some (r, h')" by simp
  then show ?case
  proof (rule andThen_invariant)
    show "builds h0 V h1" if "arr_unshift (index_h h V i) (HStr l) h = Some (r1, h1)" for r1 h1
      using Cons.prems(1) that by (rule builds_label)
  next
    fix u h1
    assume "builds h0 V h1" "label_rows_h V (Suc i) ls h1 = Some (r, h')"
    then show "builds h0 V h'" by (rule Cons.IH)
  qed
qed

lemma addColumnLabels_h_builds:
  assumes "builds h0 V h" "addColumnLabels_h V labels hasLineHeaders h = Some (r, h')"
  shows "builds h0 V h'"
proof (cases hasLineHeaders)
  case False
  with assms show ?thesis by (auto simp: addColumnLabels_h_def dest: label_rows_h_builds)
next
  case True
  with assms(2) have
    "andThen (\<lambda>h. arr_unshift (index_h h V 0) (HStr ''Elements'') h)
       (\<lambda>_. label_rows_h V 1 labels) h = Some (r, h')"
    by (simp add: addColumnLabels_h_def)
  then show ?thesis
  proof (rule andThen_invariant)
    show "builds h0 V h1"
      if "arr_unshift (index_h h V 0) (HStr ''Elements'') h = Some (r1, h1)" for r1 h1
      using assms(1) that by (rule builds_label)
  next
    fix u h1
    assume "builds h0 V h1" "label_rows_h V 1 labels h1 = Some (r, h')"
    then show "builds h0 V h'" by (rule label_rows_h_builds)
  qed
qed

text \<open>The header row made from a second extraction, put in front.\<close>

lemma header_all_builds:
  assumes "builds h0 V h"
      and "andThen (extractObjectValues_h fuel obj)
             (\<lambda>firstObj. arr_unshift V (fst firstObj)) h = Some (r, h')"
  shows "builds h0 V h'"
  using assms(2)
proof (rule andThen_invariant)
  show "builds h0 V h1" if "extractObjectValues_h fuel obj h = Some (r1, h1)" for r1 h1
    using assms(1) extractObjectValues_h_frame [OF that] by (auto intro: builds_extends)
next
  fix x h1
  assume ex: "extractObjectValues_h fuel obj h = Some (Inr x, h1)" and b1: "builds h0 V h1"
    and un: "arr_unshift V (fst x) h1 = Some (r, h')"
  from extractObjectValues_h_frame [OF ex] have "fresh h (fst x)" by (cases x) simp
  with assms(1) have "fresh h0 (fst x) \<and> fst x \<noteq> V" by (rule builds_fresh_now)
  with b1 show "builds h0 V h'" using un by (rule builds_unshift)
qed

lemma andThen_assoc:
  "andThen (andThen m f) g = andThen m (\<lambda>x. andThen (f x) g)"
  by (rule ext) (simp add: andThen_def split: option.splits sum.splits prod.splits)

lemma andThen_new_array: "andThen (new_array xs) f h = f (HRef (length h)) (h @ [HArr xs])"
  by (simp add: andThen_def new_array_def)

lemma returns_values:
  assumes "andThen m (\<lambda>_. ret V) h = Some (r, h')"
      and "\<And>r1 h1. m h = Some (r1, h1) \<Longrightarrow> builds h0 V h1"
  shows "builds h0 V h' \<and> (\<forall>res. r = Inr res \<longrightarrow> res = V)"
  using assms(1)
proof (cases rule: andThenE)
  case (throws e)
  with assms(2) show ?thesis by auto
next
  case (returns x h1)
  with assms(2) show ?thesis by (auto simp: ret_def)
qed

lemma transformArrayOfObjects_h_builds:
  assumes ext: "extends h0 h"
      and fld: "\<And>f. fields' = Some f \<Longrightarrow> fresh h0 f \<and> (\<exists>a. f = HRef a \<and> a < length h)"
      and run: "transformArrayOfObjects_h fuel rows config fields' h = Some (r, h')"
  shows "\<exists>V. builds h0 V h' \<and> (\<forall>res. r = Inr res \<longrightarrow> res = V)"
proof -
  let ?V = "HRef (length h)"
  let ?h1 = "h @ [HArr []]"
  have b1: "builds h0 ?V ?h1" using ext by (rule builds_new)
  let ?all = "for_of_value rows (\<lambda>obj.
                andThen (extractObjectValues_h fuel obj) (\<lambda>extracted.
                arr_push ?V (snd extracted)))"
  have all: "builds h0 ?V h2" if "?all ?h1 = Some (r2, h2)" for r2 h2
    using that b1 by (rule for_of_value_invariant) (rule body_all_builds)
  show ?thesis
  proof (cases "cfg_fields config = JStr ''all''")
    case True
    show ?thesis
    proof (cases "cfg_method config = JStr ''new'' \<and> line config")
      case False
      with True run have "andThen ?all (\<lambda>_. ret ?V) ?h1 = Some (r, h')"
        by (simp add: transformArrayOfObjects_h_def andThen_new_array)
      then have "builds h0 ?V h' \<and> (\<forall>res. r = Inr res \<longrightarrow> res = ?V)"
        by (rule returns_values) (rule all)
      then show ?thesis by blast
    next
      case header: True
      with True run have run2:
        "andThen ?all (\<lambda>_.
           andThen (andThen (\<lambda>h. extractObjectValues_h fuel (index_h h rows 0) h)
                      (\<lambda>firstObj. arr_unshift ?V (fst firstObj)))
             (\<lambda>_. ret ?V)) ?h1 = Some (r, h')"
        by (simp add: transformArrayOfObjects_h_def andThen_new_array andThen_assoc)
      from run2 show ?thesis
      proof (cases rule: andThenE)
        case (throws e)
        with all show ?thesis by auto
      next
        case (returns u h2)
        with all have b2: "builds h0 ?V h2" by simp
        have hd: "builds h0 ?V h3"
          if "andThen (\<lambda>h. extractObjectValues_h fuel (index_h h rows 0) h)
                (\<lambda>firstObj. arr_unshift ?V (fst firstObj)) h2 = Some (r3, h3)" for r3 h3
        proof -
          from that have
            "andThen (extractObjectValues_h fuel (index_h h2 rows 0))
                (\<lambda>firstObj. arr_unshift ?V (fst firstObj)) h2 = Some (r3, h3)"
            by (simp add: andThen_def)
          with b2 show ?thesis by (rule header_all_builds)
        qed
        from returns(2) have "builds h0 ?V h' \<and> (\<forall>res. r = Inr res \<longrightarrow> res = ?V)"
          by (rule returns_values) (rule hd)
        then show ?thesis by blast
      qed
    qed
  next
    case False
    show ?thesis
    proof (cases fields')
      case None
      with False run b1 show ?thesis
        by (auto simp: transformArrayOfObjects_h_def andThen_new_array ret_def)
    next
      case (Some F)
      from fld [OF Some] have F: "fresh h0 F \<and> F \<noteq> ?V" by auto
      let ?sel = "for_of_value rows (\<lambda>obj.
                    andThen (extractObjectValues_h fuel obj) (\<lambda>extracted.
                    andThen (new_array []) (\<lambda>row.
                    andThen (for_of_value F (select_field extracted row)) (\<lambda>_.
                    arr_push ?V row))))"
      have sel: "builds h0 ?V h2" if "?sel ?h1 = Some (r2, h2)" for r2 h2
        using that b1 by (rule for_of_value_invariant) (rule body_selected_builds)
      show ?thesis
      proof (cases "cfg_method config = JStr ''new'' \<and> line config")
        case False
        with \<open>cfg_fields config \<noteq> JStr ''all''\<close> Some run
        have "andThen ?sel (\<lambda>_. ret ?V) ?h1 = Some (r, h')"
          by (simp add: transformArrayOfObjects_h_def andThen_new_array)
        then have "builds h0 ?V h' \<and> (\<forall>res. r = Inr res \<longrightarrow> res = ?V)"
          by (rule returns_values) (rule sel)
        then show ?thesis by blast
      next
        case True
        with \<open>cfg_fields config \<noteq> JStr ''all''\<close> Some run
        have run2: "andThen ?sel (\<lambda>_. andThen (arr_unshift ?V F) (\<lambda>_. ret ?V)) ?h1 = Some (r, h')"
          by (simp add: transformArrayOfObjects_h_def andThen_new_array)
        from run2 show ?thesis
        proof (cases rule: andThenE)
          case (throws e)
          with sel show ?thesis by auto
        next
          case (returns u h2)
          with sel have b2: "builds h0 ?V h2" by simp
          have un: "builds h0 ?V h3" if "arr_unshift ?V F h2 = Some (r3, h3)" for r3 h3
            using b2 F that by (rule builds_unshift)
          from returns(2) have "builds h0 ?V h' \<and> (\<forall>res. r = Inr res \<longrightarrow> res = ?V)"
            by (rule returns_values) (rule un)
          then show ?thesis by blast
        qed
      qed
    qed
  qed
qed

lemma keepsI: "(\<And>h r h'. builds h0 V h \<Longrightarrow> m h = Some (r, h') \<Longrightarrow> builds h0 V h') \<Longrightarrow> keeps h0 V m"
  by (simp add: keeps_def)

lemma keepsD: "keeps h0 V m \<Longrightarrow> builds h0 V h \<Longrightarrow> m h = Some (r, h') \<Longrightarrow> builds h0 V h'"
  by (simp add: keeps_def)

lemma keeps_ret: "keeps h0 V (ret x)"
  by (simp add: keeps_def ret_def)

lemma keeps_andThen:
  assumes "keeps h0 V m" "\<And>x. keeps h0 V (f x)"
  shows "keeps h0 V (andThen m f)"
proof (rule keepsI)
  fix h r h'
  assume b: "builds h0 V h" and "andThen m f h = Some (r, h')"
  from this(2) show "builds h0 V h'"
  proof (rule andThen_invariant)
    show "builds h0 V h1" if "m h = Some (r1, h1)" for r1 h1
      using assms(1) b that by (rule keepsD)
  next
    fix x h1
    assume "builds h0 V h1" "f x h1 = Some (r, h')"
    with assms(2) show "builds h0 V h'" by (rule keepsD)
  qed
qed

lemma keeps_for_of:
  assumes "\<And>x. keeps h0 V (body x)"
  shows "keeps h0 V (for_of xs body)"
proof (rule keepsI)
  fix h r h'
  assume b: "builds h0 V h" and run: "for_of xs body h = Some (r, h')"
  have "builds h0 V hb'" if "builds h0 V hb" "body x hb = Some (rb, hb')" for x hb rb hb'
    using assms that by (rule keepsD)
  then show "builds h0 V h'"
    using b run by (rule for_of_invariant [where I = "builds h0 V"])
qed

lemma keeps_for_of_value:
  assumes "\<And>x. keeps h0 V (body x)"
  shows "keeps h0 V (for_of_value v body)"
proof (rule keepsI)
  fix h r h'
  assume "builds h0 V h" "for_of_value v body h = Some (r, h')"
  from this(2,1) show "builds h0 V h'"
    by (rule for_of_value_invariant) (rule keepsD [OF assms])
qed

lemma keeps_body_all:
  "keeps h0 V (andThen (extractObjectValues_h fuel obj) (\<lambda>extracted. arr_push V (snd extracted)))"
  by (rule keepsI) (rule body_all_builds)

lemma keeps_body_selected:
  "keeps h0 V (andThen (extractObjectValues_h fuel obj) (\<lambda>extracted.
           andThen (new_array []) (\<lambda>row.
           andThen (for_of_value fieldsArray (select_field extracted row)) (\<lambda>_.
           arr_push V row))))"
  by (rule keepsI) (rule body_selected_builds)

lemma keeps_header:
  "keeps h0 V (andThen (\<lambda>h. extractObjectValues_h fuel (g h) h)
                 (\<lambda>firstExtracted. arr_unshift V (fst firstExtracted)))"
proof (rule keepsI)
  fix h r h'
  assume b: "builds h0 V h"
    and "andThen (\<lambda>h. extractObjectValues_h fuel (g h) h)
           (\<lambda>firstExtracted. arr_unshift V (fst firstExtracted)) h = Some (r, h')"
  then have "andThen (extractObjectValues_h fuel (g h))
           (\<lambda>firstExtracted. arr_unshift V (fst firstExtracted)) h = Some (r, h')"
    by (simp add: andThen_def)
  with b show "builds h0 V h'" by (rule header_all_builds)
qed

lemma keeps_unshift: "fresh h0 F \<and> F \<noteq> V \<Longrightarrow> keeps h0 V (arr_unshift V F)"
  by (rule keepsI) (rule builds_unshift)

lemma keeps_labels: "keeps h0 V (addColumnLabels_h V labels hasLineHeaders)"
  by (rule keepsI) (rule addColumnLabels_h_builds)

lemma keeps_if: "keeps h0 V a \<Longrightarrow> keeps h0 V b \<Longrightarrow> keeps h0 V (if c then a else b)"
  by simp

lemma yields_ret: "yields V (ret V)"
  by (simp add: yields_def ret_def)

lemma yields_andThen: "(\<And>x. yields V (f x)) \<Longrightarrow> yields V (andThen m f)"
  by (auto simp: yields_def andThen_def split: option.splits sum.splits prod.splits)

lemma yields_if: "yields V a \<Longrightarrow> yields V b \<Longrightarrow> yields V (if c then a else b)"
  by simp

text \<open>What \<^verbatim>\<open>transformObjectOfObjects\<close> does after \<^verbatim>\<open>const values = []\<close>.\<close>

lemma transformObjectOfObjects_h_builds:
  assumes ext: "extends h0 h"
      and fld: "\<And>f. fields' = Some f \<Longrightarrow> fresh h0 f \<and> (\<exists>a. f = HRef a \<and> a < length h)"
      and run: "transformObjectOfObjects_h fuel data config fields' h = Some (r, h')"
  shows "\<exists>V. builds h0 V h' \<and> (\<forall>res. r = Inr res \<longrightarrow> res = V)"
proof -
  let ?V = "HRef (length h)"
  let ?h1 = "h @ [HArr []]"
  have b1: "builds h0 ?V ?h1" using ext by (rule builds_new)
  have pair: "keeps h0 ?V (case x of (key, v) \<Rightarrow> m v)" if "\<And>v. keeps h0 ?V (m v)"
    for x :: "string \<times> hval" and m :: "hval \<Rightarrow> unit prog"
    using that by (cases x) simp
  define rest where "rest =
    (let entries = for_in_h ?h1 data;
            labels = map fst entries;
            first = (case labels of [] \<Rightarrow> ''undefined'' | l # _ \<Rightarrow> l)
        in
        if cfg_fields config = JStr ''all'' then
          andThen (for_of entries (\<lambda>(key, v).
                     andThen (extractObjectValues_h fuel v) (\<lambda>extracted.
                     arr_push ?V (snd extracted))))
            (\<lambda>_. if cfg_method config = JStr ''new'' then
                   andThen (if line config
                            then andThen (\<lambda>h. extractObjectValues_h fuel
                                                 (get_property_h (for_in_h h data) first) h)
                                   (\<lambda>firstExtracted. arr_unshift ?V (fst firstExtracted))
                            else ret ())
                     (\<lambda>_. andThen (if column config
                                    then addColumnLabels_h ?V labels (line config)
                                    else ret ())
                             (\<lambda>_. ret ?V))
                 else ret ?V)
        else
          (case fields' of
             Some fieldsArray \<Rightarrow>
               andThen (for_of entries (\<lambda>(key, v).
                          andThen (extractObjectValues_h fuel v) (\<lambda>extracted.
                          andThen (new_array []) (\<lambda>row.
                          andThen (for_of_value fieldsArray (select_field extracted row)) (\<lambda>_.
                          arr_push ?V row)))))
                 (\<lambda>_. if cfg_method config = JStr ''new'' then
                        andThen (if line config then arr_unshift ?V fieldsArray else ret ())
                          (\<lambda>_. andThen (if column config
                                         then addColumnLabels_h ?V labels (line config)
                                         else ret ())
                                  (\<lambda>_. ret ?V))
                      else ret ?V)
           | None \<Rightarrow> ret ?V))"
  from run have run1: "rest ?h1 = Some (r, h')"
    by (simp add: transformObjectOfObjects_h_def andThen_new_array rest_def)
  have k: "keeps h0 ?V rest"
  proof (cases fields')
    case None
    then show ?thesis
      unfolding rest_def Let_def
      by (auto intro!: keeps_if keeps_andThen keeps_ret keeps_for_of pair keeps_body_all
          keeps_header keeps_labels)
  next
    case (Some F)
    from fld [OF Some] have "fresh h0 F \<and> F \<noteq> ?V" by auto
    with Some show ?thesis
      unfolding rest_def Let_def
      by (auto intro!: keeps_if keeps_andThen keeps_ret keeps_for_of pair keeps_body_all
          keeps_body_selected keeps_header keeps_labels keeps_unshift)
  qed
  have y: "yields ?V rest"
    unfolding rest_def Let_def
    by (auto intro!: yields_if yields_andThen yields_ret split: option.splits)
  from k b1 run1 have "builds h0 ?V h'" by (rule keepsD)
  moreover from y run1 have "\<forall>res. r = Inr res \<longrightarrow> res = ?V" by (auto simp: yields_def)
  ultimately show ?thesis by blast
qed

lemma read_array_in_store:
  "in_store h v \<Longrightarrow> read_array (h @ zs) v = read_array h v"
  by (auto simp: in_store_def read_array_def nth_append split: hval.splits)

lemma grid_shaped_append:
  assumes "input_ok h data"
  shows "grid_shaped (h @ zs) data = grid_shaped h data"
proof (cases "read_array h data")
  case None
  with assms show ?thesis by (simp add: grid_shaped_def input_ok_def read_array_in_store)
next
  case (Some xs)
  with assms have "in_store h (cell_at xs 0)"
    by (cases xs) (auto simp: input_ok_def cell_at_def in_store_def)
  with assms Some show ?thesis
    by (simp add: grid_shaped_def input_ok_def read_array_in_store)
qed

lemma wrap_scalar:
  assumes "extends h hF"
      and "andThen (new_array [x]) (\<lambda>inner. new_array [inner]) hF = Some (r, h')"
  shows "extends h h' \<and> (\<forall>res. r = Inr res \<longrightarrow>
           fresh h res \<and> (\<exists>rows. read_array h' res = Some rows \<and> list_all (fresh h) rows))"
proof -
  from assms(2) have r: "r = Inr (HRef (Suc (length hF)))"
    and h': "h' = hF @ [HArr [x], HArr [HRef (length hF)]]"
    by (simp_all add: andThen_new_array new_array_def)
  from assms(1) have "length h \<le> length hF" by (rule extends_length)
  moreover have "extends h h'" unfolding h' using assms(1) by (rule extends_append)
  ultimately show ?thesis
    unfolding r h' by (simp add: fresh_def read_array_def nth_append)
qed

lemma andThen_ret: "andThen (ret x) f = f x"
  by (rule ext) (simp add: andThen_def ret_def)

lemma transform_h_unfold:
  "transform_h fuel data config h =
     (let hF = (case selected config of Some fs \<Rightarrow> h @ [HArr (map HStr fs)] | None \<Rightarrow> h);
          fields' = (case selected config of Some fs \<Rightarrow> Some (HRef (length h)) | None \<Rightarrow> None)
      in
         (if data \<noteq> HNull \<and> data \<noteq> HUndefined \<and> typeof_h data \<noteq> ''object''
          then andThen (new_array [data]) (\<lambda>inner. new_array [inner]) hF
          else if grid_shaped hF data
          then ret data hF
          else if (case read_array hF data of
                     Some xs \<Rightarrow> length xs = 1 \<and> typeof_h (cell_at xs 0) \<noteq> ''object''
                   | None \<Rightarrow> False)
          then andThen (new_array [index_h hF data 0]) (\<lambda>inner. new_array [inner]) hF
          else if (case read_array hF data of Some xs \<Rightarrow> 0 < length xs | None \<Rightarrow> False)
          then transformArrayOfObjects_h fuel data config fields' hF
          else if typeof_h data = ''object''
          then (if data = HNull then throw TypeError hF
                else if get_length_h hF data = HUndefined
                then transformObjectOfObjects_h fuel data config fields' hF
                else throw UnsupportedFormat hF)
          else throw UnsupportedFormat hF))"
  by (cases "selected config")
     (simp_all add: transform_h_def andThen_assoc andThen_ret andThen_new_array)


text \<open>
  C4 (as amended).  For an input held in the store, the encoder writes to no object the
  caller had: the store it leaves begins with the store it was given.  When it returns a
  grid for an input that is not grid-shaped (a scalar, a one-element array of a scalar, an
  array of records, a mapping of records), the outer array is new and every row is a new
  array.  For a grid-shaped input (a non-empty array whose first element is an array) the
  grid it returns is the input itself, the same reference.
\<close>

theorem encoder_result_is_new:
  assumes ok: "input_ok h data"
      and run: "transform_h fuel data config h = Some (r, h')"
  shows "extends h h'
     \<and> (\<forall>res. r = Inr res \<longrightarrow>
          (if grid_shaped h data then res = data
           else fresh h res
                \<and> (\<exists>rows. read_array h' res = Some rows \<and> list_all (fresh h) rows)))"
proof -
  define hF where "hF = (case selected config of Some fs \<Rightarrow> h @ [HArr (map HStr fs)] | None \<Rightarrow> h)"
  define fields' where "fields' = (case selected config of Some fs \<Rightarrow> Some (HRef (length h)) | None \<Rightarrow> None)"
  have eF: "extends h hF"
    by (simp add: hF_def extends_append extends_refl split: option.splits)
  have fld: "fresh h f \<and> (\<exists>a. f = HRef a \<and> a < length hF)" if "fields' = Some f" for f
    using that by (auto simp: fields'_def hF_def fresh_def split: option.splits)
  have gs: "grid_shaped hF data = grid_shaped h data"
    using ok by (simp add: hF_def grid_shaped_append split: option.splits)
  let ?P = "\<lambda>r h'. extends h h'
     \<and> (\<forall>res. r = Inr res \<longrightarrow>
          (if grid_shaped h data then res = data
           else fresh h res
                \<and> (\<exists>rows. read_array h' res = Some rows \<and> list_all (fresh h) rows)))"
  from run have run1:
    "(if data \<noteq> HNull \<and> data \<noteq> HUndefined \<and> typeof_h data \<noteq> ''object''
          then andThen (new_array [data]) (\<lambda>inner. new_array [inner]) hF
          else if grid_shaped hF data
          then ret data hF
          else if (case read_array hF data of
                     Some xs \<Rightarrow> length xs = 1 \<and> typeof_h (cell_at xs 0) \<noteq> ''object''
                   | None \<Rightarrow> False)
          then andThen (new_array [index_h hF data 0]) (\<lambda>inner. new_array [inner]) hF
          else if (case read_array hF data of Some xs \<Rightarrow> 0 < length xs | None \<Rightarrow> False)
          then transformArrayOfObjects_h fuel data config fields' hF
          else if typeof_h data = ''object''
          then (if data = HNull then throw TypeError hF
                else if get_length_h hF data = HUndefined
                then transformObjectOfObjects_h fuel data config fields' hF
                else throw UnsupportedFormat hF)
          else throw UnsupportedFormat hF) = Some (r, h')"
    unfolding transform_h_unfold Let_def hF_def fields'_def .
  have built: "?P r h'"
    if "\<not> grid_shaped h data" "\<exists>V. builds h V h' \<and> (\<forall>res. r = Inr res \<longrightarrow> res = V)"
    using that by (auto dest: builds_result)
  show ?thesis
  proof (cases "data \<noteq> HNull \<and> data \<noteq> HUndefined \<and> typeof_h data \<noteq> ''object''")
    case True
    then have "read_array h data = None" by (cases data) (auto simp: read_array_def)
    then have "\<not> grid_shaped h data" by (simp add: grid_shaped_def)
    moreover from run1
    have "andThen (new_array [data]) (\<lambda>inner. new_array [inner]) hF = Some (r, h')"
      by (simp only: True if_True simp_thms)
    ultimately show ?thesis using wrap_scalar [OF eF] by simp
  next
    case c1: False
    show ?thesis
    proof (cases "grid_shaped hF data")
      case True
      with run1 have "ret data hF = Some (r, h')" by (simp only: c1 if_False if_True)
      with True gs eF show ?thesis by (auto simp: ret_def)
    next
      case c2: False
      with gs have ng: "\<not> grid_shaped h data" by simp
      show ?thesis
      proof (cases "case read_array hF data of
                     Some xs \<Rightarrow> length xs = 1 \<and> typeof_h (cell_at xs 0) \<noteq> ''object''
                   | None \<Rightarrow> False")
        case True
        with run1
        have "andThen (new_array [index_h hF data 0]) (\<lambda>inner. new_array [inner]) hF
                = Some (r, h')"
          by (simp only: c1 c2 if_False if_True)
        with ng show ?thesis using wrap_scalar [OF eF] by simp
      next
        case c3: False
        show ?thesis
        proof (cases "case read_array hF data of Some xs \<Rightarrow> 0 < length xs | None \<Rightarrow> False")
          case True
          with run1 have "transformArrayOfObjects_h fuel data config fields' hF = Some (r, h')"
            by (simp only: c1 c2 c3 if_False if_True)
          with eF fld have "\<exists>V. builds h V h' \<and> (\<forall>res. r = Inr res \<longrightarrow> res = V)"
            by (rule transformArrayOfObjects_h_builds)
          with ng show ?thesis by (rule built)
        next
          case c4: False
          from run1 have run5:
            "(if typeof_h data = ''object''
              then (if data = HNull then throw TypeError hF
                    else if get_length_h hF data = HUndefined
                    then transformObjectOfObjects_h fuel data config fields' hF
                    else throw UnsupportedFormat hF)
              else throw UnsupportedFormat hF) = Some (r, h')"
            by (simp only: c1 c2 c3 c4 if_False)
          show ?thesis
          proof (cases "typeof_h data = ''object'' \<and> data \<noteq> HNull
                          \<and> get_length_h hF data = HUndefined")
            case True
            with run5
            have "transformObjectOfObjects_h fuel data config fields' hF = Some (r, h')"
              by simp
            with eF fld have "\<exists>V. builds h V h' \<and> (\<forall>res. r = Inr res \<longrightarrow> res = V)"
              by (rule transformObjectOfObjects_h_builds)
            with ng show ?thesis by (rule built)
          next
            case False
            with run5 have "h' = hF \<and> (\<exists>e. r = Inl e)"
              by (auto simp: throw_def split: if_splits)
            with eF show ?thesis by auto
          qed
        qed
      qed
    qed
  qed
qed

lemma records_run:
  "transform_h 0 (HRef 0) line_header_config records_store
      = Some (Inr (HRef 4),
          records_store @
            [HArr [HRef 9, HRef 6, HRef 8],
             HArr [HStr ''name'', HStr ''tags''], HArr [HStr ''John'', HRef 3],
             HArr [HStr ''name'', HStr ''tags''], HArr [HStr ''Jane'', HRef 3],
             HArr [HStr ''name'', HStr ''tags''], HArr [HStr ''John'', HRef 3]])"
  by code_simp


text \<open>
  The amended C4 at an array of two records that share one array-valued field: the
  outer array (address 4) and the rows are new; the cell \<^verbatim>\<open>tags\<close> of either data row
  is the reference 3, the input's own array.
\<close>

theorem encoder_result_is_new_witness:
  "input_ok records_store (HRef 0)
   \<and> \<not> grid_shaped records_store (HRef 0)
   \<and> (\<exists>h'. transform_h 0 (HRef 0) line_header_config records_store = Some (Inr (HRef 4), h')
          \<and> extends records_store h'
          \<and> fresh records_store (HRef 4)
          \<and> (\<exists>rows. read_array h' (HRef 4) = Some rows \<and> list_all (fresh records_store) rows))"
proof -
  have ok: "input_ok records_store (HRef 0)" by code_simp
  have ng: "\<not> grid_shaped records_store (HRef 0)" by code_simp
  from encoder_result_is_new [OF ok records_run] ng ok records_run show ?thesis by simp
qed

text \<open>
  C4 as it is written fails twice.  For the example grid the encoder returns the caller's
  own outer array, and a push onto the returned array is a push onto the input.  For the
  two records that share the array at address 3, the cell \<^verbatim>\<open>tags\<close> of the first data
  row (address 6) is that very array.
\<close>

theorem encoder_returns_input_counterexample:
  "transform_h 0 (HRef 0) line_header_config people_store = Some (Inr (HRef 0), people_store)
   \<and> \<not> fresh people_store (HRef 0)
   \<and> arr_push (HRef 0) (HNum 7) people_store
       = Some (Inr (), HArr [HRef 1, HRef 2, HRef 3, HNum 7] # tl people_store)
   \<and> read_array (HArr [HRef 1, HRef 2, HRef 3, HNum 7] # tl people_store) (HRef 0)
       \<noteq> read_array people_store (HRef 0)
   \<and> (case transform_h 0 (HRef 0) line_header_config records_store of
        Some (Inr res, h') \<Rightarrow>
          read_array h' res = Some [HRef 9, HRef 6, HRef 8]
          \<and> read_array h' (HRef 6) = Some [HStr ''John'', HRef 3]
          \<and> read_array records_store (HRef 3) = Some [HNum 1, HNum 2]
      | _ \<Rightarrow> False)"
  by code_simp

subsection \<open>The two embeddings on the examples\<close>

text \<open>
  On the example of the specification the store-level functions compute, read back as
  trees, what the value-level functions compute: for the encoder on the records, and for
  the decoder on the grid under each combination of the header flags.
\<close>

lemma models_agree_on_examples:
  "reify 3 people_records_store (HRef 0) = Some people_records"
  "reify 3 people_store (HRef 0) = Some (grid_value people_grid)"
  "read_back (transform_h 0 (HRef 0) line_header_config people_records_store)
     = Some (transform people_records line_header_config)"
  "read_back (transformGetResponse_h (\<lambda>h a. ''[object Object]'') (HRef 0) line_header_config
                (JStr ''COLUMNS'') people_store)
     = Some (transformGetResponse people_grid line_header_config (JStr ''COLUMNS''))"
  "read_back (transformGetResponse_h (\<lambda>h a. ''[object Object]'') (HRef 0) line_header_config
                (JStr ''ROWS'') people_store)
     = Some (transformGetResponse people_grid line_header_config (JStr ''ROWS''))"
  "read_back (transformGetResponse_h (\<lambda>h a. ''[object Object]'') (HRef 0)
                (line_header_config\<lparr>column := True\<rparr>) (JStr ''ROWS'') people_store)
     = Some (transformGetResponse people_grid (line_header_config\<lparr>column := True\<rparr>)
               (JStr ''ROWS''))"
  "read_back (transformGetResponse_h (\<lambda>h a. ''[object Object]'') (HRef 0)
                (line_header_config\<lparr>line := False\<rparr>) (JStr ''ROWS'') people_store)
     = Some (transformGetResponse people_grid (line_header_config\<lparr>line := False\<rparr>)
               (JStr ''ROWS''))"
  by code_simp+

end
